theory Spec2Isabelle
  imports Main "HOL-Library.Word" "HOL-Library.Monad_Syntax"
begin

unbundle bit_operations_syntax

section \<open>Data model of RSErasureCode.c\<close>

text \<open>
  \<^verbatim>\<open>typedef unsigned short GFSymbol; typedef int Boolean;\<close>
  A field symbol is a 16-bit word, a mask entry a 32-bit C int (nonzero is true).
  Loop counters and array indices are C ints that never go negative in the code, so they
  are natural numbers here.  The three macros are abbreviations of their values.
\<close>

type_synonym GFSymbol = "16 word"
type_synonym Boolean = "32 word"

abbreviation FIELD_BITS :: nat where "FIELD_BITS \<equiv> 16"
abbreviation FIELD_SIZE :: nat where "FIELD_SIZE \<equiv> 65536"
abbreviation MODULO :: nat where "MODULO \<equiv> 65535"

definition mask_c :: GFSymbol where
  "mask_c = 0x2D"

definition Base :: "GFSymbol list" where
  "Base = [1, 44234, 15374, 5694, 50562, 60718, 37196, 16402,
           27800, 4312, 27250, 47360, 64952, 64308, 65336, 39198]"

text \<open>The five global arrays.  Their declared sizes are \<open>FIELD_SIZE\<close>, \<open>FIELD_SIZE\<close>,
  \<open>MODULO\<close>, \<open>FIELD_SIZE >> 1\<close> and \<open>FIELD_SIZE\<close>.\<close>

record tables =
  LOG_TABLE :: "GFSymbol list"
  EXP_TABLE :: "GFSymbol list"
  skewVec :: "GFSymbol list"
  B :: "GFSymbol list"
  log_walsh :: "GFSymbol list"

definition sized :: "tables \<Rightarrow> bool" where
  "sized t \<longleftrightarrow> length (LOG_TABLE t) = FIELD_SIZE \<and> length (EXP_TABLE t) = FIELD_SIZE \<and>
     length (skewVec t) = MODULO \<and> length (B t) = 32768 \<and> length (log_walsh t) = FIELD_SIZE"

text \<open>C starts its globals zeroed.\<close>

definition zero_tables :: tables where
  "zero_tables = \<lparr>LOG_TABLE = replicate FIELD_SIZE 0, EXP_TABLE = replicate FIELD_SIZE 0,
     skewVec = replicate MODULO 0, B = replicate 32768 0, log_walsh = replicate FIELD_SIZE 0\<rparr>"

subsection \<open>Checked array access\<close>

text \<open>An access outside the array is undefined behaviour in C; the model stops with
  \<open>None\<close> there, so every function returns an option.\<close>

definition rd :: "'a list \<Rightarrow> nat \<Rightarrow> 'a option" where
  "rd xs i = (if i < length xs then Some (xs ! i) else None)"

definition wr :: "'a list \<Rightarrow> nat \<Rightarrow> 'a \<Rightarrow> 'a list option" where
  "wr xs i v = (if i < length xs then Some (xs[i := v]) else None)"

subsection \<open>The four loop shapes of the code\<close>

text \<open>\<^verbatim>\<open>for (i = lo; i < hi; i++)\<close>\<close>

function for_range :: "nat \<Rightarrow> nat \<Rightarrow> (nat \<Rightarrow> 's \<Rightarrow> 's option) \<Rightarrow> 's \<Rightarrow> 's option" where
  "for_range i hi body s =
     (if i < hi then Option.bind (body i s) (for_range (Suc i) hi body) else Some s)"
  by pat_completeness auto
termination
  by (relation "measure (\<lambda>(i, hi, body, s). hi - i)") auto

text \<open>\<^verbatim>\<open>for (j = lo; j < hi; j += step)\<close>.  With a zero stride the C loop
  never leaves a state \<open>j < hi\<close>: there is no result, which is \<open>None\<close> as well.\<close>

function for_step :: "nat \<Rightarrow> nat \<Rightarrow> nat \<Rightarrow> (nat \<Rightarrow> 's \<Rightarrow> 's option) \<Rightarrow> 's \<Rightarrow> 's option" where
  "for_step j hi step body s =
     (if j < hi
      then (if 0 < step then Option.bind (body j s) (for_step (j + step) hi step body) else None)
      else Some s)"
  by pat_completeness auto
termination
  by (relation "measure (\<lambda>(j, hi, step, body, s). hi - j)") auto

text \<open>\<^verbatim>\<open>for (d = d0; d < size; d <<= 1)\<close>, started at 1 by every caller (started
  at 0 it would not end either).\<close>

function for_shl :: "nat \<Rightarrow> nat \<Rightarrow> (nat \<Rightarrow> 's \<Rightarrow> 's option) \<Rightarrow> 's \<Rightarrow> 's option" where
  "for_shl d sz body s =
     (if d < sz
      then (if 0 < d then Option.bind (body d s) (for_shl (2 * d) sz body) else None)
      else Some s)"
  by pat_completeness auto
termination
  by (relation "measure (\<lambda>(d, sz, body, s). sz - d)") auto

text \<open>\<^verbatim>\<open>for (d = d0; d > 0; d >>= 1)\<close>\<close>

function for_shr :: "nat \<Rightarrow> (nat \<Rightarrow> 's \<Rightarrow> 's option) \<Rightarrow> 's \<Rightarrow> 's option" where
  "for_shr d body s =
     (if 0 < d then Option.bind (body d s) (for_shr (d div 2) body) else Some s)"
  by pat_completeness auto
termination
  by (relation "measure (\<lambda>(d, body, s). d)") auto

declare for_range.simps [simp del] for_step.simps [simp del]
  for_shl.simps [simp del] for_shr.simps [simp del]

subsection \<open>Field multiply and the Walsh-Hadamard transform\<close>

text \<open>The expression \<^verbatim>\<open>(x & MODULO) + (x >> FIELD_BITS)\<close>, which \<^verbatim>\<open>mulE\<close> and
  \<^verbatim>\<open>walsh\<close> write inline, computed in C's int (no overflow: x is below \<open>2^17\<close>).\<close>

definition fold_reduce :: "nat \<Rightarrow> nat" where
  "fold_reduce x = (x AND MODULO) + drop_bit FIELD_BITS x"

definition mulE :: "tables \<Rightarrow> GFSymbol \<Rightarrow> GFSymbol \<Rightarrow> GFSymbol option" where
  "mulE t a b =
     (if a \<noteq> 0 then do {
        l \<leftarrow> rd (LOG_TABLE t) (unat a);
        rd (EXP_TABLE t) (fold_reduce (unat l + unat b))
      } else Some 0)"

definition walsh_body :: "nat \<Rightarrow> nat \<Rightarrow> GFSymbol list \<Rightarrow> GFSymbol list option" where
  "walsh_body depart_no i data = do {
     a \<leftarrow> rd data i;
     b \<leftarrow> rd data (i + depart_no);
     let tmp2 = unat a + MODULO - unat b;
     data \<leftarrow> wr data i (of_nat (fold_reduce (unat a + unat b)));
     wr data (i + depart_no) (of_nat (fold_reduce tmp2))
   }"

definition walsh :: "GFSymbol list \<Rightarrow> nat \<Rightarrow> GFSymbol list option" where
  "walsh data sz =
     for_shl 1 sz (\<lambda>depart_no.
       for_step 0 sz (2 * depart_no) (\<lambda>j.
         for_range j (depart_no + j) (walsh_body depart_no))) data"

subsection \<open>Formal derivative and the transform pair\<close>

text \<open>\<^verbatim>\<open>leng = ((i^i-1)+1)>>1\<close> parses as \<open>((i ^ (i-1)) + 1) >> 1\<close>: the lowest set
  bit of \<open>i\<close>, never above \<open>i\<close>, so \<open>i - leng\<close> does not go negative.\<close>

definition formal_derivative :: "GFSymbol list \<Rightarrow> nat \<Rightarrow> GFSymbol list option" where
  "formal_derivative cos sz =
     for_range 1 sz (\<lambda>i cos.
       let leng = drop_bit 1 ((i XOR (i - 1)) + 1) in
       for_range (i - leng) i (\<lambda>j cos. do {
         a \<leftarrow> rd cos j;
         b \<leftarrow> rd cos (j + leng);
         wr cos j (a XOR b)
       }) cos) cos"

definition xor_up :: "nat \<Rightarrow> nat \<Rightarrow> GFSymbol list \<Rightarrow> GFSymbol list option" where
  \<comment> \<open>\<^verbatim>\<open>data[i+depart_no] ^= data[i]\<close>\<close>
  "xor_up depart_no i data = do {
     a \<leftarrow> rd data i;
     b \<leftarrow> rd data (i + depart_no);
     wr data (i + depart_no) (b XOR a)
   }"

definition xor_mul :: "tables \<Rightarrow> GFSymbol \<Rightarrow> nat \<Rightarrow> nat \<Rightarrow> GFSymbol list \<Rightarrow> GFSymbol list option" where
  \<comment> \<open>\<^verbatim>\<open>data[i] ^= mulE(data[i+depart_no], skew)\<close>\<close>
  "xor_mul t skew depart_no i data = do {
     a \<leftarrow> rd data i;
     b \<leftarrow> rd data (i + depart_no);
     m \<leftarrow> mulE t b skew;
     wr data i (a XOR m)
   }"

text \<open>The bodies of the \<^verbatim>\<open>j\<close> loops of \<^verbatim>\<open>IFLT\<close> and \<^verbatim>\<open>FLT\<close>.\<close>

definition IFLT_block :: "tables \<Rightarrow> nat \<Rightarrow> nat \<Rightarrow> nat \<Rightarrow> GFSymbol list \<Rightarrow> GFSymbol list option" where
  "IFLT_block t depart_no index j data = do {
     data \<leftarrow> for_range (j - depart_no) j (xor_up depart_no) data;
     skew \<leftarrow> rd (skewVec t) (j + index - 1);
     if unat skew \<noteq> MODULO
     then for_range (j - depart_no) j (xor_mul t skew depart_no) data
     else Some data
   }"

definition FLT_block :: "tables \<Rightarrow> nat \<Rightarrow> nat \<Rightarrow> nat \<Rightarrow> GFSymbol list \<Rightarrow> GFSymbol list option" where
  "FLT_block t depart_no index j data = do {
     skew \<leftarrow> rd (skewVec t) (j + index - 1);
     data \<leftarrow> (if unat skew \<noteq> MODULO
              then for_range (j - depart_no) j (xor_mul t skew depart_no) data
              else Some data);
     for_range (j - depart_no) j (xor_up depart_no) data
   }"

definition IFLT :: "tables \<Rightarrow> GFSymbol list \<Rightarrow> nat \<Rightarrow> nat \<Rightarrow> GFSymbol list option" where
  "IFLT t data sz index =
     for_shl 1 sz (\<lambda>depart_no.
       for_step depart_no sz (2 * depart_no) (IFLT_block t depart_no index)) data"

definition FLT :: "tables \<Rightarrow> GFSymbol list \<Rightarrow> nat \<Rightarrow> nat \<Rightarrow> GFSymbol list option" where
  "FLT t data sz index =
     for_shr (sz div 2) (\<lambda>depart_no.
       for_step depart_no sz (2 * depart_no) (FLT_block t depart_no index)) data"

subsection \<open>Table construction: \<^verbatim>\<open>init\<close>, \<^verbatim>\<open>init_dec\<close>, \<^verbatim>\<open>setup\<close>\<close>

definition mas :: GFSymbol where
  \<comment> \<open>\<^verbatim>\<open>(1<<FIELD_BITS-1)-1\<close>\<close>
  "mas = 0x7FFF"

definition next_state :: "GFSymbol \<Rightarrow> GFSymbol" where
  "next_state state =
     (if drop_bit (FIELD_BITS - 1) state \<noteq> 0 then push_bit 1 (state AND mas) XOR mask_c
      else push_bit 1 state)"

definition init_exp :: "GFSymbol list \<Rightarrow> GFSymbol list option" where
  "init_exp E = do {
     (E, state) \<leftarrow> for_range 0 MODULO (\<lambda>i (E, state). do {
         E \<leftarrow> wr E (unat state) (of_nat i);
         Some (E, next_state state)
       }) (E, 1);
     wr E 0 (of_nat MODULO)
   }"

definition init_log_basis :: "GFSymbol list \<Rightarrow> GFSymbol list option" where
  "init_log_basis L = do {
     L \<leftarrow> wr L 0 0;
     for_range 0 FIELD_BITS (\<lambda>i.
       for_range 0 (2 ^ i) (\<lambda>j L. do {
         v \<leftarrow> rd L j;
         b \<leftarrow> rd Base i;
         wr L (j + 2 ^ i) (v XOR b)
       })) L
   }"

definition init_log :: "GFSymbol list \<Rightarrow> GFSymbol list \<Rightarrow> GFSymbol list option" where
  \<comment> \<open>\<^verbatim>\<open>LOG_TABLE[i] = EXP_TABLE[LOG_TABLE[i]]\<close>\<close>
  "init_log E L = for_range 0 FIELD_SIZE (\<lambda>i L. do {
       v \<leftarrow> rd L i;
       e \<leftarrow> rd E (unat v);
       wr L i e
     }) L"

definition init_inv :: "GFSymbol list \<Rightarrow> GFSymbol list \<Rightarrow> GFSymbol list option" where
  \<comment> \<open>\<^verbatim>\<open>EXP_TABLE[LOG_TABLE[i]] = i\<close>\<close>
  "init_inv L E = for_range 0 FIELD_SIZE (\<lambda>i E. do {
       v \<leftarrow> rd L i;
       wr E (unat v) (of_nat i)
     }) E"

definition init :: "tables \<Rightarrow> tables option" where
  "init t = do {
     E \<leftarrow> init_exp (EXP_TABLE t);
     L \<leftarrow> init_log_basis (LOG_TABLE t);
     L \<leftarrow> init_log E L;
     E \<leftarrow> init_inv L E;
     e0 \<leftarrow> rd E 0;
     E \<leftarrow> wr E MODULO e0;
     Some (t\<lparr>LOG_TABLE := L, EXP_TABLE := E\<rparr>)
   }"

text \<open>The local array \<^verbatim>\<open>base\<close> of \<^verbatim>\<open>init_dec\<close> is not initialised in C; its first loop
  writes all 15 entries before any is read, so the model starts it zeroed.\<close>

definition init_base :: "GFSymbol list option" where
  "init_base = for_range 1 FIELD_BITS (\<lambda>i base. wr base (i - 1) (push_bit i 1))
     (replicate (FIELD_BITS - 1) 0)"

definition skew_level :: "tables \<Rightarrow> nat \<Rightarrow> GFSymbol list \<times> GFSymbol list \<Rightarrow>
    (GFSymbol list \<times> GFSymbol list) option" where
  "skew_level t m = (\<lambda>(skew, base). do {
     let step = 2 ^ (m + 1);
     skew \<leftarrow> wr skew (2 ^ m - 1) 0;
     skew \<leftarrow> for_range m (FIELD_BITS - 1) (\<lambda>i skew.
       let s = 2 ^ (i + 1) in
       for_step (2 ^ m - 1) s step (\<lambda>j skew. do {
         v \<leftarrow> rd skew j;
         b \<leftarrow> rd base i;
         wr skew (j + s) (v XOR b)
       }) skew) skew;
     bm \<leftarrow> rd base m;
     l1 \<leftarrow> rd (LOG_TABLE t) (unat (bm XOR 1));
     p \<leftarrow> mulE t bm l1;
     l2 \<leftarrow> rd (LOG_TABLE t) (unat p);
     base \<leftarrow> wr base m (of_nat (MODULO - unat l2));
     base \<leftarrow> for_range (m + 1) (FIELD_BITS - 1) (\<lambda>i base. do {
       bi \<leftarrow> rd base i;
       l \<leftarrow> rd (LOG_TABLE t) (unat (bi XOR 1));
       bm \<leftarrow> rd base m;
       p \<leftarrow> mulE t bi (of_nat ((unat l + unat bm) mod MODULO));
       wr base i p
     }) base;
     Some (skew, base)
   })"

definition log_entry :: "tables \<Rightarrow> nat \<Rightarrow> GFSymbol list \<Rightarrow> GFSymbol list option" where
  \<comment> \<open>\<^verbatim>\<open>skewVec[i] = LOG_TABLE[skewVec[i]];\<close>\<close>
  "log_entry t i skew = do {
     v \<leftarrow> rd skew i;
     l \<leftarrow> rd (LOG_TABLE t) (unat v);
     wr skew i l
   }"

definition skew_to_log :: "tables \<Rightarrow> GFSymbol list \<Rightarrow> GFSymbol list option" where
  \<comment> \<open>the final pass, \<^verbatim>\<open>for(int i=0; i<FIELD_SIZE; i++)\<close> over \<open>log_entry\<close>\<close>
  "skew_to_log t skew = for_range 0 FIELD_SIZE (log_entry t) skew"

definition memcpy_c :: "'a list \<Rightarrow> nat \<Rightarrow> 'a list \<Rightarrow> nat \<Rightarrow> 'a list option" where
  \<comment> \<open>\<^verbatim>\<open>memcpy(&dst[off], src, sizeof(GFSymbol)*n)\<close>\<close>
  "memcpy_c dst off src n =
     (if off + n \<le> length dst \<and> n \<le> length src
      then Some (take off dst @ take n src @ drop (off + n) dst) else None)"

definition build_log_walsh :: "tables \<Rightarrow> GFSymbol list option" where
  \<comment> \<open>the last three statements of \<^verbatim>\<open>init_dec\<close>:
     \<^verbatim>\<open>memcpy(log_walsh, LOG_TABLE, ...); log_walsh[0] = 0; walsh(log_walsh, FIELD_SIZE);\<close>\<close>
  "build_log_walsh t = do {
     lw \<leftarrow> memcpy_c (log_walsh t) 0 (LOG_TABLE t) FIELD_SIZE;
     lw \<leftarrow> wr lw 0 0;
     walsh lw FIELD_SIZE
   }"

definition skew_levels :: "tables \<Rightarrow> (GFSymbol list \<times> GFSymbol list) option" where
  \<comment> \<open>the first two loops of \<^verbatim>\<open>init_dec\<close>: \<^verbatim>\<open>base\<close> is filled, then the loop over \<^verbatim>\<open>m\<close> runs\<close>
  "skew_levels t = do {
     base \<leftarrow> init_base;
     for_range 0 (FIELD_BITS - 1) (skew_level t) (skewVec t, base)
   }"

definition init_dec :: "tables \<Rightarrow> tables option" where
  "init_dec t = do {
     (skew, base) \<leftarrow> skew_levels t;
     skew \<leftarrow> skew_to_log t skew;
     b0 \<leftarrow> rd base 0;
     base \<leftarrow> wr base 0 (of_nat (MODULO - unat b0));
     base \<leftarrow> for_range 1 (FIELD_BITS - 1) (\<lambda>i base. do {
       bi \<leftarrow> rd base i;
       bp \<leftarrow> rd base (i - 1);
       wr base i (of_nat ((MODULO - unat bi + unat bp) mod MODULO))
     }) base;
     Bv \<leftarrow> wr (B t) 0 0;
     Bv \<leftarrow> for_range 0 (FIELD_BITS - 1) (\<lambda>i Bv.
       let depart = 2 ^ i in
       for_range 0 depart (\<lambda>j Bv. do {
         v \<leftarrow> rd Bv j;
         bi \<leftarrow> rd base i;
         wr Bv (j + depart) (of_nat ((unat v + unat bi) mod MODULO))
       }) Bv) Bv;
     lw \<leftarrow> build_log_walsh t;
     Some (t\<lparr>skewVec := skew, B := Bv, log_walsh := lw\<rparr>)
   }"

definition setup_c :: "tables \<Rightarrow> tables option" where
  \<comment> \<open>\<^verbatim>\<open>setup\<close> of the source\<close>
  "setup_c t = do { t \<leftarrow> init t; init_dec t }"

subsection \<open>Encoder and decoder\<close>


text \<open>The bodies of the three counting loops of \<^verbatim>\<open>decode_init\<close>.\<close>

definition seed_mask :: "Boolean list \<Rightarrow> nat \<Rightarrow> GFSymbol list \<Rightarrow> GFSymbol list option" where
  \<comment> \<open>\<^verbatim>\<open>log_walsh2[i] = erasure[i];\<close>\<close>
  "seed_mask erasure i log_walsh2 = do {
     e \<leftarrow> rd erasure i;
     wr log_walsh2 i (ucast e)
   }"

definition times_log_walsh :: "tables \<Rightarrow> nat \<Rightarrow> GFSymbol list \<Rightarrow> GFSymbol list option" where
  \<comment> \<open>\<^verbatim>\<open>log_walsh2[i] = (unsigned long)log_walsh2[i]*log_walsh[i]%MODULO;\<close>\<close>
  "times_log_walsh t i log_walsh2 = do {
     v \<leftarrow> rd log_walsh2 i;
     w \<leftarrow> rd (log_walsh t) i;
     wr log_walsh2 i (of_nat (unat v * unat w mod MODULO))
   }"

definition negate_erased :: "Boolean list \<Rightarrow> nat \<Rightarrow> GFSymbol list \<Rightarrow> GFSymbol list option" where
  \<comment> \<open>\<^verbatim>\<open>if(erasure[i]) log_walsh2[i] = MODULO-log_walsh2[i];\<close>\<close>
  "negate_erased erasure i log_walsh2 = do {
     e \<leftarrow> rd erasure i;
     if e \<noteq> 0 then do {
       v \<leftarrow> rd log_walsh2 i;
       wr log_walsh2 i (of_nat (MODULO - unat v))
     } else Some log_walsh2
   }"

definition decode_init :: "tables \<Rightarrow> Boolean list \<Rightarrow> GFSymbol list \<Rightarrow> nat \<Rightarrow>
    GFSymbol list option" where
  "decode_init t erasure log_walsh2 n = do {
     log_walsh2 \<leftarrow> for_range 0 n (seed_mask erasure) log_walsh2;
     log_walsh2 \<leftarrow> walsh log_walsh2 FIELD_SIZE;
     log_walsh2 \<leftarrow> for_range 0 n (times_log_walsh t) log_walsh2;
     log_walsh2 \<leftarrow> walsh log_walsh2 FIELD_SIZE;
     for_range 0 n (negate_erased erasure) log_walsh2
   }"

definition scale_pair :: "tables \<Rightarrow> bool \<Rightarrow> nat \<Rightarrow> GFSymbol list \<Rightarrow> GFSymbol list option" where
  \<comment> \<open>the bodies of the two \<^verbatim>\<open>i+=2\<close> loops of \<^verbatim>\<open>decode_main\<close>: with \<open>neg\<close> the factor is
     \<^verbatim>\<open>MODULO-B[i>>1]\<close>, without it \<^verbatim>\<open>B[i>>1]\<close>\<close>
  "scale_pair t neg i codeword = do {
     c \<leftarrow> rd codeword i;
     b \<leftarrow> rd (B t) (drop_bit 1 i);
     m \<leftarrow> mulE t c (if neg then of_nat (MODULO - unat b) else b);
     codeword \<leftarrow> wr codeword i m;
     c \<leftarrow> rd codeword (i + 1);
     b \<leftarrow> rd (B t) (drop_bit 1 i);
     m \<leftarrow> mulE t c (if neg then of_nat (MODULO - unat b) else b);
     wr codeword (i + 1) m
   }"

definition blank_or_scale :: "tables \<Rightarrow> Boolean list \<Rightarrow> GFSymbol list \<Rightarrow> nat \<Rightarrow> GFSymbol list \<Rightarrow>
    GFSymbol list option" where
  \<comment> \<open>\<^verbatim>\<open>codeword[i] = erasure[i] ? 0 : mulE(codeword[i], log_walsh2[i]);\<close>\<close>
  "blank_or_scale t erasure log_walsh2 i codeword = do {
     e \<leftarrow> rd erasure i;
     if e \<noteq> 0 then wr codeword i 0
     else do {
       c \<leftarrow> rd codeword i;
       l \<leftarrow> rd log_walsh2 i;
       m \<leftarrow> mulE t c l;
       wr codeword i m
     }
   }"

definition recover :: "tables \<Rightarrow> Boolean list \<Rightarrow> GFSymbol list \<Rightarrow> nat \<Rightarrow> GFSymbol list \<Rightarrow>
    GFSymbol list option" where
  \<comment> \<open>\<^verbatim>\<open>codeword[i] = erasure[i]? mulE(codeword[i], log_walsh2[i]) : 0;\<close>\<close>
  "recover t erasure log_walsh2 i codeword = do {
     e \<leftarrow> rd erasure i;
     if e \<noteq> 0 then do {
       c \<leftarrow> rd codeword i;
       l \<leftarrow> rd log_walsh2 i;
       m \<leftarrow> mulE t c l;
       wr codeword i m
     } else wr codeword i 0
   }"

definition decode_main :: "tables \<Rightarrow> GFSymbol list \<Rightarrow> nat \<Rightarrow> Boolean list \<Rightarrow> GFSymbol list \<Rightarrow>
    nat \<Rightarrow> GFSymbol list option" where
  "decode_main t codeword k erasure log_walsh2 n = do {
     let recover_chunks = k;
     codeword \<leftarrow> for_range 0 n (blank_or_scale t erasure log_walsh2) codeword;
     codeword \<leftarrow> IFLT t codeword n 0;
     codeword \<leftarrow> for_step 0 n 2 (scale_pair t True) codeword;
     codeword \<leftarrow> formal_derivative codeword n;
     codeword \<leftarrow> for_step 0 n 2 (scale_pair t False) codeword;
     codeword \<leftarrow> FLT t codeword n 0;
     for_range 0 recover_chunks (recover t erasure log_walsh2) codeword
   }"

section \<open>Auxiliary notions for the proofs\<close>

text \<open>The closed forms of the butterfly loops.  A stage works on consecutive blocks of
  \<open>w\<close> entries; \<open>chunk w k xs\<close> is block number \<open>k\<close>, and \<open>blocks G w K xs\<close> replaces each of
  the first \<open>K\<close> blocks by its image under \<open>G k\<close>.  Inside a block of \<open>2 * d\<close> entries,
  \<open>pairs f1 f2 d\<close> combines entry \<open>r\<close> of the lower half with entry \<open>r\<close> of the upper
  half.\<close>

definition chunk :: "nat \<Rightarrow> nat \<Rightarrow> 'a list \<Rightarrow> 'a list" where
  "chunk w k xs = take w (drop (k * w) xs)"

definition blocks :: "(nat \<Rightarrow> 'a list \<Rightarrow> 'a list) \<Rightarrow> nat \<Rightarrow> nat \<Rightarrow> 'a list \<Rightarrow> 'a list" where
  "blocks G w K xs = concat (map (\<lambda>k. G k (chunk w k xs)) [0..<K]) @ drop (K * w) xs"

definition pairs :: "('a \<Rightarrow> 'a \<Rightarrow> 'a) \<Rightarrow> ('a \<Rightarrow> 'a \<Rightarrow> 'a) \<Rightarrow> nat \<Rightarrow> 'a list \<Rightarrow> 'a list" where
  "pairs f1 f2 d c = map2 f1 (take d c) (drop d c) @ map2 f2 (take d c) (drop d c)"

text \<open>The two outputs of a butterfly of \<^verbatim>\<open>walsh\<close>, and one stage of it in closed form.\<close>

definition wsum :: "GFSymbol \<Rightarrow> GFSymbol \<Rightarrow> GFSymbol" where
  "wsum a b = of_nat (fold_reduce (unat a + unat b))"

definition wdiff :: "GFSymbol \<Rightarrow> GFSymbol \<Rightarrow> GFSymbol" where
  "wdiff a b = of_nat (fold_reduce (unat a + MODULO - unat b))"

definition walsh_stage :: "nat \<Rightarrow> nat \<Rightarrow> GFSymbol list \<Rightarrow> GFSymbol list" where
  "walsh_stage m e xs = blocks (\<lambda>k. pairs wsum wdiff (2 ^ e)) (2 * 2 ^ e) (2 ^ (m - e - 1)) xs"

text \<open>The value \<^verbatim>\<open>mulE\<close> returns when its table reads are in range, the two half-steps of
  a butterfly of the transform pair on one block, and the stages of \<^verbatim>\<open>IFLT\<close> and
  \<^verbatim>\<open>FLT\<close> of size \<open>2 ^ m\<close> in closed form (stage \<open>e\<close> has \<^verbatim>\<open>depart_no\<close> \<open>2 ^ e\<close>).\<close>

definition mulE_val :: "tables \<Rightarrow> GFSymbol \<Rightarrow> GFSymbol \<Rightarrow> GFSymbol" where
  "mulE_val t a b =
     (if a \<noteq> 0 then EXP_TABLE t ! fold_reduce (unat (LOG_TABLE t ! unat a) + unat b) else 0)"

definition ustep :: "nat \<Rightarrow> GFSymbol list \<Rightarrow> GFSymbol list" where
  "ustep d = pairs (\<lambda>a b. a) (\<lambda>a b. b XOR a) d"

definition mstep :: "tables \<Rightarrow> GFSymbol \<Rightarrow> nat \<Rightarrow> GFSymbol list \<Rightarrow> GFSymbol list" where
  "mstep t skew d c =
     (if unat skew \<noteq> MODULO then pairs (\<lambda>a b. a XOR mulE_val t b skew) (\<lambda>a b. b) d c else c)"

definition skew_at :: "tables \<Rightarrow> nat \<Rightarrow> nat \<Rightarrow> nat \<Rightarrow> GFSymbol" where
  "skew_at t index e k = skewVec t ! (2 ^ e + k * (2 * 2 ^ e) + index - 1)"

definition IFLT_stage :: "tables \<Rightarrow> nat \<Rightarrow> nat \<Rightarrow> nat \<Rightarrow> GFSymbol list \<Rightarrow> GFSymbol list" where
  "IFLT_stage t index m e =
     blocks (\<lambda>k c. mstep t (skew_at t index e k) (2 ^ e) (ustep (2 ^ e) c))
       (2 * 2 ^ e) (2 ^ (m - e - 1))"

definition FLT_stage :: "tables \<Rightarrow> nat \<Rightarrow> nat \<Rightarrow> nat \<Rightarrow> GFSymbol list \<Rightarrow> GFSymbol list" where
  "FLT_stage t index m e =
     blocks (\<lambda>k c. ustep (2 ^ e) (mstep t (skew_at t index e k) (2 ^ e) c))
       (2 * 2 ^ e) (2 ^ (m - e - 1))"

primrec IFLT_stages :: "tables \<Rightarrow> nat \<Rightarrow> nat \<Rightarrow> nat \<Rightarrow> GFSymbol list \<Rightarrow> GFSymbol list" where
  "IFLT_stages t index m 0 s = s"
| "IFLT_stages t index m (Suc n) s = IFLT_stage t index m n (IFLT_stages t index m n s)"

primrec FLT_stages :: "tables \<Rightarrow> nat \<Rightarrow> nat \<Rightarrow> nat \<Rightarrow> GFSymbol list \<Rightarrow> GFSymbol list" where
  "FLT_stages t index m 0 s = s"
| "FLT_stages t index m (Suc n) s = FLT_stages t index m n (FLT_stage t index m n s)"

text \<open>For the analysis of \<^verbatim>\<open>init\<close>: \<open>state_at n\<close> is the value of \<^verbatim>\<open>state\<close> after \<open>n\<close>
  rounds of its first loop, \<open>lincomb k vs x\<close> the XOR of the entries of \<open>vs\<close> selected by the
  bits \<open>k, k + 1, \<dots>\<close> of \<open>x\<close>, \<open>gmul\<close> a shift-and-add product built from \<open>next_state\<close>,
  and \<open>gpow n\<close> the \<open>n\<close>-th state computed by repeated squaring.\<close>

fun lincomb :: "nat \<Rightarrow> GFSymbol list \<Rightarrow> GFSymbol \<Rightarrow> GFSymbol" where
  "lincomb k [] x = 0"
| "lincomb k (v # vs) x = (if bit x k then v else 0) XOR lincomb (Suc k) vs x"

definition state_at :: "nat \<Rightarrow> GFSymbol" where
  "state_at n = (next_state ^^ n) 1"

fun gmul_from :: "nat \<Rightarrow> nat \<Rightarrow> GFSymbol \<Rightarrow> GFSymbol \<Rightarrow> GFSymbol" where
  "gmul_from k 0 a b = 0"
| "gmul_from k (Suc n) a b = (if bit b k then a else 0) XOR gmul_from (Suc k) n (next_state a) b"

definition gmul :: "GFSymbol \<Rightarrow> GFSymbol \<Rightarrow> GFSymbol" where
  "gmul a b = gmul_from 0 16 a b"

definition gsq :: "GFSymbol \<Rightarrow> GFSymbol" where
  "gsq h = gmul h h"

function gpow :: "nat \<Rightarrow> GFSymbol" where
  "gpow n = (if n = 0 then 1 else if even n then gsq (gpow (n div 2))
             else gmul 2 (gpow (n - 1)))"
  by pat_completeness auto
termination
  by (relation "measure id") auto

declare gpow.simps [simp del]


text \<open>The inverse of the basis change: \<open>lincomb 0 Base_inv\<close> maps \<open>Base ! i\<close> to \<open>2 ^ i\<close>.\<close>

definition Base_inv :: "GFSymbol list" where
  "Base_inv = [1, 18064, 26072, 25296, 22324, 17904, 21432, 7736,
               31918, 20024, 26376, 49756, 31332, 40620, 4388, 21050]"

definition cantor :: "nat \<Rightarrow> GFSymbol" where
  "cantor x = lincomb 0 Base (of_nat x)"


text \<open>The array after the first \<open>n\<close> stages of \<^verbatim>\<open>walsh\<close> of size \<open>2 ^ m\<close>, and the sum of an
  array read as integers.\<close>

primrec walsh_stages :: "nat \<Rightarrow> nat \<Rightarrow> GFSymbol list \<Rightarrow> GFSymbol list" where
  "walsh_stages m 0 s = s"
| "walsh_stages m (Suc n) s = walsh_stage m n (walsh_stages m n s)"

definition isum :: "GFSymbol list \<Rightarrow> int" where
  "isum xs = sum_list (map uint xs)"


text \<open>The table state that \<^verbatim>\<open>decode_init\<close> reads after \<^verbatim>\<open>setup()\<close>: the logarithm and exponential
  tables as \<open>init\<close> builds them from the zero-initialised globals, and \<open>log_walsh\<close> as the
  last three statements of \<^verbatim>\<open>init_dec\<close> build it from them.\<close>

definition init_then_log_walsh :: tables where
  "init_then_log_walsh =
     (the (init zero_tables))\<lparr>log_walsh := the (build_log_walsh (the (init zero_tables)))\<rparr>"


text \<open>The Walsh-Hadamard transform of a list of \<open>2 ^ n\<close> integers, by its recursion
  \<open>H\<^bsub>2N\<^esub> (lo @ hi) = (H\<^bsub>N\<^esub> lo + H\<^bsub>N\<^esub> hi) @ (H\<^bsub>N\<^esub> lo - H\<^bsub>N\<^esub> hi)\<close>: entry \<open>i\<close> is the sum of the
  inputs \<open>x\<^bsub>j\<^esub>\<close>, each with the sign \<open>(-1) ^ popcount (i AND j)\<close>.\<close>

primrec hadamard :: "nat \<Rightarrow> int list \<Rightarrow> int list" where
  "hadamard 0 xs = xs"
| "hadamard (Suc n) xs =
     map2 (+) (hadamard n (take (2 ^ n) xs)) (hadamard n (drop (2 ^ n) xs))
     @ map2 (-) (hadamard n (take (2 ^ n) xs)) (hadamard n (drop (2 ^ n) xs))"

definition residues :: "int list \<Rightarrow> int list" where
  "residues xs = map (\<lambda>z. z mod 65535) xs"

text \<open>The skew vector as \<^verbatim>\<open>init_dec\<close> has it when its final pass has done the iterations
  \<open>i = 0 .. 65534\<close>, which stay inside the array: the first two loops of \<open>init_dec\<close>, and
  the final pass stopped before \<open>i = 65535\<close>.\<close>

definition skew_pass :: "tables \<Rightarrow> GFSymbol list option" where
  "skew_pass t = do {
     (skew, base) \<leftarrow> skew_levels t;
     for_range 0 MODULO (log_entry t) skew
   }"
section \<open>Reasoning about the loops\<close>

lemma rd_Some_iff [simp]: "rd xs i = Some v \<longleftrightarrow> i < length xs \<and> v = xs ! i"
  by (auto simp: rd_def)

lemma rd_None_iff [simp]: "rd xs i = None \<longleftrightarrow> length xs \<le> i"
  by (auto simp: rd_def)

lemma wr_Some_iff [simp]: "wr xs i v = Some ys \<longleftrightarrow> i < length xs \<and> ys = xs[i := v]"
  by (auto simp: wr_def)

lemma wr_None_iff [simp]: "wr xs i v = None \<longleftrightarrow> length xs \<le> i"
  by (auto simp: wr_def)

lemma rd_out [simp]: "length xs \<le> i \<Longrightarrow> rd xs i = None"
  by (simp add: rd_def)

lemma wr_out [simp]: "length xs \<le> i \<Longrightarrow> wr xs i v = None"
  by (simp add: wr_def)

lemma unat16_less [simp]: "unat (w :: GFSymbol) < FIELD_SIZE"
  using unsigned_less [of w, where ?'a = nat] by simp

lemma rd_in [simp]: "i < length xs \<Longrightarrow> rd xs i = Some (xs ! i)"
  by (simp add: rd_def)

lemma wr_in [simp]: "i < length xs \<Longrightarrow> wr xs i v = Some (xs[i := v])"
  by (simp add: wr_def)

lemma for_range_stop: "\<not> i < hi \<Longrightarrow> for_range i hi body s = Some s"
  by (simp add: for_range.simps)

lemma for_range_step:
  "i < hi \<Longrightarrow> for_range i hi body s = Option.bind (body i s) (for_range (Suc i) hi body)"
  by (subst for_range.simps) simp

text \<open>Total correctness of a counting loop: an invariant that every iteration
  re-establishes, together with the fact that the iteration returns.\<close>

lemma for_range_total:
  assumes "I i s" and "i \<le> hi"
    and "\<And>j s. i \<le> j \<Longrightarrow> j < hi \<Longrightarrow> I j s \<Longrightarrow> \<exists>s'. body j s = Some s' \<and> I (Suc j) s'"
  shows "\<exists>s'. for_range i hi body s = Some s' \<and> I hi s'"
  using assms
proof (induction "hi - i" arbitrary: i s)
  case 0
  then show ?case by (simp add: for_range_stop)
next
  case (Suc d)
  then have lt: "i < hi" by simp
  from Suc.prems(3) [OF le_refl lt Suc.prems(1)]
  obtain s1 where b: "body i s = Some s1" and I1: "I (Suc i) s1" by blast
  have "\<exists>s'. for_range (Suc i) hi body s1 = Some s' \<and> I hi s'"
  proof (rule Suc.hyps(1))
    show "d = hi - Suc i" using Suc.hyps(2) by simp
    show "I (Suc i) s1" by (rule I1)
    show "Suc i \<le> hi" using lt by simp
    show "\<And>j s. Suc i \<le> j \<Longrightarrow> j < hi \<Longrightarrow> I j s \<Longrightarrow> \<exists>s'. body j s = Some s' \<and> I (Suc j) s'"
      using Suc.prems(3) by simp
  qed
  then show ?case by (simp add: for_range_step [OF lt] b)
qed

text \<open>Partial correctness: the invariant holds at the end of a loop that returned.\<close>

lemma for_range_partial:
  assumes "for_range i hi body s = Some s'" and "I i s" and "i \<le> hi"
    and "\<And>j s s'. i \<le> j \<Longrightarrow> j < hi \<Longrightarrow> I j s \<Longrightarrow> body j s = Some s' \<Longrightarrow> I (Suc j) s'"
  shows "I hi s'"
  using assms
proof (induction "hi - i" arbitrary: i s)
  case 0
  then show ?case by (simp add: for_range_stop)
next
  case (Suc d)
  then have lt: "i < hi" by simp
  from Suc.prems(1) obtain s1 where b: "body i s = Some s1"
    and r: "for_range (Suc i) hi body s1 = Some s'"
    by (auto simp: for_range_step [OF lt] bind_eq_Some_conv)
  have I1: "I (Suc i) s1" using Suc.prems(4) [OF le_refl lt Suc.prems(2) b] .
  show ?case
  proof (rule Suc.hyps(1) [OF _ r I1])
    show "d = hi - Suc i" using Suc.hyps(2) by simp
    show "Suc i \<le> hi" using lt by simp
    show "\<And>j s s'. Suc i \<le> j \<Longrightarrow> j < hi \<Longrightarrow> I j s \<Longrightarrow> body j s = Some s' \<Longrightarrow> I (Suc j) s'"
      using Suc.prems(4) by simp
  qed
qed

lemma for_range_snoc:
  assumes "i \<le> n"
  shows "for_range i (Suc n) body s = Option.bind (for_range i n body s) (body n)"
  using assms
proof (induction "n - i" arbitrary: i s)
  case 0
  then have "i = n" by simp
  then show ?case by (cases "body n s") (simp_all add: for_range_step for_range_stop)
next
  case (Suc d)
  then have lt: "i < n" by simp
  have ih: "\<And>s. for_range (Suc i) (Suc n) body s = Option.bind (for_range (Suc i) n body s) (body n)"
    by (rule Suc.hyps(1)) (use Suc.hyps(2) lt in simp_all)
  show ?case using lt
    by (cases "body i s") (simp_all add: for_range_step ih)
qed

lemma for_step_stop: "\<not> j < hi \<Longrightarrow> for_step j hi step body s = Some s"
  by (simp add: for_step.simps)

lemma for_step_step:
  "j < hi \<Longrightarrow> 0 < step \<Longrightarrow>
   for_step j hi step body s = Option.bind (body j s) (for_step (j + step) hi step body)"
  by (subst for_step.simps) simp

text \<open>A strided loop that makes exactly \<open>K\<close> iterations is the counting loop over the
  iteration number.\<close>

lemma for_step_as_range:
  assumes "0 < step" and "hi \<le> lo + K * step" and "K = 0 \<or> lo + (K - 1) * step < hi"
  shows "for_step lo hi step body s = for_range 0 K (\<lambda>k. body (lo + k * step)) s"
  using assms(2,3)
proof (induction K arbitrary: lo s)
  case 0
  then show ?case by (simp add: for_step_stop for_range_stop)
next
  case (Suc K)
  then have lt: "lo < hi"
    by (metis Suc_neq_Zero add.commute add_diff_cancel_left' le_add1 le_less_trans
        mult.commute mult_Suc_right plus_1_eq_Suc trans_less_add1 not_less
        add_lessD1)
  have ih: "\<And>s. for_step (lo + step) hi step body s
      = for_range 0 K (\<lambda>k. body (lo + step + k * step)) s"
  proof (rule Suc.IH)
    show "hi \<le> lo + step + K * step" using Suc.prems(1) by (simp add: algebra_simps)
    show "K = 0 \<or> lo + step + (K - 1) * step < hi"
    proof (cases K)
      case 0 then show ?thesis by simp
    next
      case (Suc K')
      then show ?thesis using Suc.prems(2) by (simp add: algebra_simps)
    qed
  qed
  have shift: "\<And>s. for_range 0 K (\<lambda>k. body (lo + step + k * step)) s
      = for_range (Suc 0) (Suc K) (\<lambda>k. body (lo + k * step)) s"
  proof -
    have gen: "\<And>a s. a \<le> K \<Longrightarrow> for_range a K (\<lambda>k. body (lo + step + k * step)) s
      = for_range (Suc a) (Suc K) (\<lambda>k. body (lo + k * step)) s"
    proof -
      fix a s
      show "a \<le> K \<Longrightarrow> for_range a K (\<lambda>k. body (lo + step + k * step)) s
        = for_range (Suc a) (Suc K) (\<lambda>k. body (lo + k * step)) s"
      proof (induction "K - a" arbitrary: a s)
        case 0
        then show ?case by (simp add: for_range_stop)
      next
        case (Suc d)
        then have "a < K" by simp
        moreover have "\<And>s. for_range (Suc a) K (\<lambda>k. body (lo + step + k * step)) s
          = for_range (Suc (Suc a)) (Suc K) (\<lambda>k. body (lo + k * step)) s"
          by (rule Suc.hyps(1)) (use Suc.hyps(2) \<open>a < K\<close> in simp_all)
        ultimately show ?case
          by (cases "body (lo + step + a * step) s")
            (simp_all add: for_range_step algebra_simps)
      qed
    qed
    show "\<And>s. for_range 0 K (\<lambda>k. body (lo + step + k * step)) s
      = for_range (Suc 0) (Suc K) (\<lambda>k. body (lo + k * step)) s"
      by (rule gen) simp
  qed
  show ?case
    by (cases "body lo s")
      (simp_all add: for_step_step [OF lt assms(1)] for_range_step [of 0 "Suc K"] ih shift)
qed

lemma for_shl_stop: "\<not> d < sz \<Longrightarrow> for_shl d sz body s = Some s"
  by (simp add: for_shl.simps)

lemma for_shl_step:
  "d < sz \<Longrightarrow> 0 < d \<Longrightarrow>
   for_shl d sz body s = Option.bind (body d s) (for_shl (2 * d) sz body)"
  by (subst for_shl.simps) simp

lemma for_shr_stop: "for_shr 0 body s = Some s"
  by (simp add: for_shr.simps)

lemma for_shr_step:
  "0 < d \<Longrightarrow> for_shr d body s = Option.bind (body d s) (for_shr (d div 2) body)"
  by (subst for_shr.simps) simp

text \<open>A property that every iteration preserves holds after the loop, for each of the
  four loop shapes.\<close>

lemma for_range_inv:
  assumes "for_range i hi body s = Some s'" and "P s"
    and "\<And>j s s'. P s \<Longrightarrow> body j s = Some s' \<Longrightarrow> P s'"
  shows "P s'"
  using assms
proof (induction i hi body s rule: for_range.induct)
  case (1 i hi body s)
  show ?case
  proof (cases "i < hi")
    case True
    with 1(2) obtain s1 where b: "body i s = Some s1"
      and r: "for_range (Suc i) hi body s1 = Some s'"
      by (auto simp: for_range_step bind_eq_Some_conv)
    show ?thesis
      by (rule 1(1) [OF True _ r]) (use b 1(4) [OF 1(3) b] 1(4) in simp_all)
  next
    case False
    with 1(2,3) show ?thesis by (simp add: for_range_stop)
  qed
qed

lemma for_step_inv:
  assumes "for_step j hi step body s = Some s'" and "P s"
    and "\<And>j s s'. P s \<Longrightarrow> body j s = Some s' \<Longrightarrow> P s'"
  shows "P s'"
  using assms
proof (induction j hi step body s rule: for_step.induct)
  case (1 j hi step body s)
  show ?case
  proof (cases "j < hi")
    case True
    with 1(2) have pos: "0 < step" by (auto simp: for_step.simps [of j] split: if_splits)
    with True 1(2) obtain s1 where b: "body j s = Some s1"
      and r: "for_step (j + step) hi step body s1 = Some s'"
      by (auto simp: for_step_step bind_eq_Some_conv)
    show ?thesis
      by (rule 1(1) [OF True pos _ r]) (use b 1(4) [OF 1(3) b] 1(4) in simp_all)
  next
    case False
    with 1(2,3) show ?thesis by (simp add: for_step_stop)
  qed
qed

lemma for_shl_inv:
  assumes "for_shl d sz body s = Some s'" and "P s"
    and "\<And>j s s'. P s \<Longrightarrow> body j s = Some s' \<Longrightarrow> P s'"
  shows "P s'"
  using assms
proof (induction d sz body s rule: for_shl.induct)
  case (1 d sz body s)
  show ?case
  proof (cases "d < sz")
    case True
    with 1(2) have pos: "0 < d" by (auto simp: for_shl.simps [of d] split: if_splits)
    with True 1(2) obtain s1 where b: "body d s = Some s1"
      and r: "for_shl (2 * d) sz body s1 = Some s'"
      by (auto simp: for_shl_step bind_eq_Some_conv)
    show ?thesis
      by (rule 1(1) [OF True pos _ r]) (use b 1(4) [OF 1(3) b] 1(4) in simp_all)
  next
    case False
    with 1(2,3) show ?thesis by (simp add: for_shl_stop)
  qed
qed

lemma for_shr_inv:
  assumes "for_shr d body s = Some s'" and "P s"
    and "\<And>j s s'. P s \<Longrightarrow> body j s = Some s' \<Longrightarrow> P s'"
  shows "P s'"
  using assms
proof (induction d body s rule: for_shr.induct)
  case (1 d body s)
  show ?case
  proof (cases "0 < d")
    case True
    with 1(2) obtain s1 where b: "body d s = Some s1"
      and r: "for_shr (d div 2) body s1 = Some s'"
      by (auto simp: for_shr_step bind_eq_Some_conv)
    show ?thesis
      by (rule 1(1) [OF True _ r]) (use b 1(4) [OF 1(3) b] 1(4) in simp_all)
  next
    case False
    with 1(2,3) show ?thesis by (simp add: for_shr_stop)
  qed
qed

text \<open>The doubling loop between two powers of two is the counting loop over the exponent.\<close>

lemma for_shl_as_range:
  assumes "t \<le> m"
  shows "for_shl (2 ^ t) (2 ^ m) body s = for_range t m (\<lambda>e. body (2 ^ e)) s"
  using assms
proof (induction "m - t" arbitrary: t s)
  case 0
  then show ?case by (simp add: for_shl_stop for_range_stop)
next
  case (Suc d)
  then have lt: "t < m" by simp
  then have lt2: "(2::nat) ^ t < 2 ^ m" by simp
  have ih: "\<And>s. for_shl (2 ^ Suc t) (2 ^ m) body s = for_range (Suc t) m (\<lambda>e. body (2 ^ e)) s"
    by (rule Suc.hyps(1)) (use Suc.hyps(2) lt in simp_all)
  show ?case
    using ih by (cases "body (2 ^ t) s") (simp_all add: for_shl_step [OF lt2] for_range_step [OF lt])
qed

lemma for_shr_pow2:
  "for_shr (2 ^ Suc t) body s = Option.bind (body (2 ^ Suc t) s) (for_shr (2 ^ t) body)"
  by (subst for_shr_step) simp_all

lemma for_shr_one: "for_shr (Suc 0) body s = body (Suc 0) s"
  by (cases "body (Suc 0) s") (simp_all add: for_shr_step for_shr_stop)

subsection \<open>The fold reduction\<close>

lemma fold_reduce_alt: "fold_reduce x = x mod FIELD_SIZE + x div FIELD_SIZE"
proof -
  have "(MODULO :: nat) = mask 16" by (simp add: mask_eq_exp_minus_1)
  then have "x AND MODULO = take_bit 16 x" by (simp add: take_bit_eq_mask)
  then show ?thesis by (simp add: fold_reduce_def take_bit_eq_mod drop_bit_eq_div)
qed

lemma fold_reduce_le:
  assumes "x \<le> 2 * MODULO"
  shows "fold_reduce x \<le> MODULO"
proof (cases "x < FIELD_SIZE")
  case True
  then show ?thesis by (simp add: fold_reduce_alt)
next
  case False
  then have "x div FIELD_SIZE = 1" using assms by simp
  moreover have "x mod FIELD_SIZE = x - FIELD_SIZE"
    using False assms by (simp add: mod_if)
  ultimately show ?thesis using assms by (simp add: fold_reduce_alt)
qed

lemma fold_reduce_cong: "fold_reduce x mod MODULO = x mod MODULO"
proof -
  have "x = FIELD_SIZE * (x div FIELD_SIZE) + x mod FIELD_SIZE" by simp
  also have "\<dots> = MODULO * (x div FIELD_SIZE) + (x mod FIELD_SIZE + x div FIELD_SIZE)"
    by (simp add: algebra_simps)
  finally have "x mod MODULO = (MODULO * (x div FIELD_SIZE) + fold_reduce x) mod MODULO"
    by (simp only: fold_reduce_alt)
  then show ?thesis by simp
qed

lemma unat_of_nat_fold:
  assumes "x \<le> 2 * MODULO"
  shows "unat (of_nat (fold_reduce x) :: GFSymbol) = fold_reduce x"
proof -
  have "fold_reduce x < FIELD_SIZE" using fold_reduce_le [OF assms] by simp
  then show ?thesis by (simp add: unat_of_nat)
qed

lemma unat16_le [simp]: "unat (w :: GFSymbol) \<le> MODULO"
  using unat16_less [of w] by linarith

subsection \<open>Blocks\<close>

lemma length_chunk: "Suc k * w \<le> length xs \<Longrightarrow> length (chunk w k xs) = w"
  by (simp add: chunk_def)

lemma length_pairs [simp]: "length c = 2 * d \<Longrightarrow> length (pairs f1 f2 d c) = 2 * d"
  by (simp add: pairs_def)

lemma length_concat_blocks:
  assumes "\<And>k c. k < K \<Longrightarrow> length c = w \<Longrightarrow> length (G k c) = w" and "K * w \<le> length xs"
  shows "length (concat (map (\<lambda>k. G k (chunk w k xs)) [0..<K])) = K * w"
  using assms
proof (induction K)
  case 0
  then show ?case by simp
next
  case (Suc K)
  have "length (chunk w K xs) = w" using Suc.prems(2) by (simp add: length_chunk)
  then have "length (G K (chunk w K xs)) = w" using Suc.prems(1) by simp
  moreover have "length (concat (map (\<lambda>k. G k (chunk w k xs)) [0..<K])) = K * w"
    by (rule Suc.IH) (use Suc.prems in auto)
  ultimately show ?case by simp
qed

lemma length_blocks:
  assumes "\<And>k c. k < K \<Longrightarrow> length c = w \<Longrightarrow> length (G k c) = w" and "K * w \<le> length xs"
  shows "length (blocks G w K xs) = length xs"
proof -
  have "length (concat (map (\<lambda>k. G k (chunk w k xs)) [0..<K])) = K * w"
    by (rule length_concat_blocks) (use assms in auto)
  then show ?thesis using assms(2) by (simp add: blocks_def)
qed

lemma take_blocks:
  assumes "\<And>k c. k < K \<Longrightarrow> length c = w \<Longrightarrow> length (G k c) = w" and "K * w \<le> length xs"
  shows "take (K * w) (blocks G w K xs) = concat (map (\<lambda>k. G k (chunk w k xs)) [0..<K])"
proof -
  have "length (concat (map (\<lambda>k. G k (chunk w k xs)) [0..<K])) = K * w"
    by (rule length_concat_blocks) (use assms in auto)
  then show ?thesis by (simp add: blocks_def)
qed

lemma drop_blocks:
  assumes "\<And>k c. k < K \<Longrightarrow> length c = w \<Longrightarrow> length (G k c) = w" and "K * w \<le> length xs"
  shows "drop (K * w) (blocks G w K xs) = drop (K * w) xs"
proof -
  have "length (concat (map (\<lambda>k. G k (chunk w k xs)) [0..<K])) = K * w"
    by (rule length_concat_blocks) (use assms in auto)
  then show ?thesis by (simp add: blocks_def)
qed

lemma blocks_Suc:
  assumes "\<And>k c. k < Suc K \<Longrightarrow> length c = w \<Longrightarrow> length (G k c) = w"
    and "Suc K * w \<le> length xs"
  shows "blocks G w (Suc K) xs =
    take (K * w) (blocks G w K xs) @ G K (chunk w K (blocks G w K xs))
      @ drop (Suc K * w) (blocks G w K xs)"
proof -
  have le: "K * w \<le> length xs" using assms(2) by simp
  have len: "\<And>k c. k < K \<Longrightarrow> length c = w \<Longrightarrow> length (G k c) = w" using assms(1) by simp
  have d: "drop (K * w) (blocks G w K xs) = drop (K * w) xs"
    by (rule drop_blocks) (use len le in auto)
  have t: "take (K * w) (blocks G w K xs) = concat (map (\<lambda>k. G k (chunk w k xs)) [0..<K])"
    by (rule take_blocks) (use len le in auto)
  have c: "chunk w K (blocks G w K xs) = chunk w K xs" by (simp add: chunk_def d)
  have "drop (Suc K * w) (blocks G w K xs) = drop w (drop (K * w) (blocks G w K xs))"
    by (simp add: add.commute)
  also have "\<dots> = drop (Suc K * w) xs" by (simp add: d add.commute)
  finally show ?thesis by (simp add: t c) (simp add: blocks_def)
qed

text \<open>A loop whose iteration \<open>k\<close> rewrites block \<open>k\<close> as a function of that block alone.\<close>

lemma for_range_blocks:
  assumes step: "\<And>k s. k < K \<Longrightarrow> length s = N \<Longrightarrow>
      blk k s = Some (take (k * w) s @ G k (chunk w k s) @ drop (Suc k * w) s)"
    and len: "\<And>k c. k < K \<Longrightarrow> length c = w \<Longrightarrow> length (G k c) = w"
    and "K * w \<le> N" and "length xs = N"
  shows "for_range 0 K blk xs = Some (blocks G w K xs)"
  using assms
proof (induction K)
  case 0
  then show ?case by (simp add: for_range_stop blocks_def)
next
  case (Suc K)
  have ih: "for_range 0 K blk xs = Some (blocks G w K xs)"
    by (rule Suc.IH) (use Suc.prems in auto)
  have l: "length (blocks G w K xs) = N"
    using length_blocks [of K w G xs] Suc.prems by simp
  have "blk K (blocks G w K xs) = Some (blocks G w (Suc K) xs)"
    using Suc.prems(1) [OF _ l, of K] blocks_Suc [of K w G xs] Suc.prems(2,3,4) by simp
  then show ?case by (simp add: for_range_snoc ih)
qed

lemma chunk_concat:
  assumes "\<forall>ys \<in> set yss. length ys = w" and "k < length yss"
  shows "take w (drop (k * w) (concat yss @ zs)) = yss ! k"
  using assms
proof (induction yss arbitrary: k)
  case Nil
  then show ?case by simp
next
  case (Cons ys yss)
  show ?case
  proof (cases k)
    case 0
    then show ?thesis using Cons.prems by simp
  next
    case (Suc k')
    then show ?thesis using Cons.prems Cons.IH [of k'] by (simp add: add.commute)
  qed
qed

lemma chunk_blocks:
  assumes "\<And>k c. k < K \<Longrightarrow> length c = w \<Longrightarrow> length (G k c) = w" and "K * w \<le> length xs"
    and "k < K"
  shows "chunk w k (blocks G w K xs) = G k (chunk w k xs)"
proof -
  have "\<forall>ys \<in> set (map (\<lambda>k. G k (chunk w k xs)) [0..<K]). length ys = w"
  proof
    fix ys assume "ys \<in> set (map (\<lambda>k. G k (chunk w k xs)) [0..<K])"
    then obtain j where j: "j < K" and ys: "ys = G j (chunk w j xs)" by auto
    have "Suc j \<le> K" using j by simp
    then have "Suc j * w \<le> K * w" by (rule mult_le_mono1)
    then have "Suc j * w \<le> length xs" using assms(2) by linarith
    then have "length (chunk w j xs) = w" by (rule length_chunk)
    then show "length ys = w" using assms(1) [OF j] ys by simp
  qed
  from chunk_concat [OF this, of k "drop (K * w) xs"] assms(3)
  show ?thesis by (simp add: chunk_def blocks_def)
qed

lemma concat_chunks:
  "K * w \<le> length xs \<Longrightarrow> concat (map (\<lambda>k. chunk w k xs) [0..<K]) = take (K * w) xs"
proof (induction K)
  case 0
  then show ?case by simp
next
  case (Suc K)
  then have ih: "concat (map (\<lambda>k. chunk w k xs) [0..<K]) = take (K * w) xs" by simp
  have "take (K * w + w) xs = take (K * w) xs @ take w (drop (K * w) xs)"
    by (rule take_add)
  moreover have "Suc K * w = K * w + w" by simp
  ultimately have "take (Suc K * w) xs = take (K * w) xs @ chunk w K xs"
    by (simp only: chunk_def)
  then show ?case using ih by simp
qed

text \<open>If every block map is undone by a second one, so is the whole stage.\<close>

lemma blocks_inverse:
  assumes G: "\<And>k c. k < K \<Longrightarrow> length c = w \<Longrightarrow> length (G k c) = w"
    and HG: "\<And>k c. k < K \<Longrightarrow> length c = w \<Longrightarrow> H k (G k c) = c"
    and le: "K * w \<le> length xs"
  shows "blocks H w K (blocks G w K xs) = xs"
proof -
  have m: "map (\<lambda>k. H k (chunk w k (blocks G w K xs))) [0..<K] = map (\<lambda>k. chunk w k xs) [0..<K]"
  proof (rule map_cong [OF refl])
    fix k assume "k \<in> set [0..<K]"
    then have k: "k < K" by simp
    have "Suc k \<le> K" using k by simp
    then have "Suc k * w \<le> K * w" by (rule mult_le_mono1)
    then have "Suc k * w \<le> length xs" using le by linarith
    then have l: "length (chunk w k xs) = w" by (rule length_chunk)
    have "chunk w k (blocks G w K xs) = G k (chunk w k xs)"
      by (rule chunk_blocks) (use G le k in auto)
    then show "H k (chunk w k (blocks G w K xs)) = chunk w k xs"
      using HG [OF k l] by simp
  qed
  have d: "drop (K * w) (blocks G w K xs) = drop (K * w) xs"
    by (rule drop_blocks) (use G le in auto)
  show ?thesis
    by (simp only: blocks_def [of H] m d concat_chunks [OF le] append_take_drop_id)
qed

subsection \<open>Pair loops\<close>

lemma splice_eqI:
  assumes "length s' = length s" and "lo + w \<le> length s" and "length c' = w"
    and "\<And>p. p < lo \<Longrightarrow> s' ! p = s ! p"
    and "\<And>p. lo + w \<le> p \<Longrightarrow> p < length s \<Longrightarrow> s' ! p = s ! p"
    and "\<And>r. r < w \<Longrightarrow> s' ! (lo + r) = c' ! r"
  shows "s' = take lo s @ c' @ drop (lo + w) s"
proof (rule nth_equalityI)
  show "length s' = length (take lo s @ c' @ drop (lo + w) s)" using assms(1,2,3) by simp
next
  fix p assume p: "p < length s'"
  consider "p < lo" | "lo \<le> p" "p < lo + w" | "lo + w \<le> p" by linarith
  then show "s' ! p = (take lo s @ c' @ drop (lo + w) s) ! p"
  proof cases
    case 1
    then show ?thesis using assms(2,4) by (simp add: nth_append)
  next
    case 2
    then have w: "p - lo < w" by linarith
    then have "s' ! (lo + (p - lo)) = c' ! (p - lo)" by (rule assms(6))
    then show ?thesis using 2 w assms(2,3) by (simp add: nth_append)
  next
    case 3
    then have a: "\<not> p < lo" "\<not> p - lo < w" "p - lo - w = p - (lo + w)" by linarith+
    have "s' ! p = s ! p" using 3 p assms(1,5) by simp
    then show ?thesis using 3 a assms(2,3) by (simp add: nth_append)
  qed
qed

lemma nth_pairs:
  assumes "length c = 2 * d" and "r < 2 * d"
  shows "pairs f1 f2 d c ! r =
    (if r < d then f1 (c ! r) (c ! (r + d)) else f2 (c ! (r - d)) (c ! r))"
  using assms by (auto simp: pairs_def nth_append add.commute)

text \<open>A loop over \<open>i\<close> in \<open>[lo, lo + d)\<close> whose iteration updates the entries \<open>i\<close> and
  \<open>i + d\<close> from their two values.\<close>

lemma pair_loop:
  assumes body: "\<And>i s. lo \<le> i \<Longrightarrow> i < lo + d \<Longrightarrow> length s = N \<Longrightarrow>
      body i s = Some (s[i := f1 (s ! i) (s ! (i + d)), i + d := f2 (s ! i) (s ! (i + d))])"
    and le: "lo + 2 * d \<le> N" and len: "length s = N"
  shows "for_range lo (lo + d) body s
    = Some (take lo s @ pairs f1 f2 d (take (2 * d) (drop lo s)) @ drop (lo + 2 * d) s)"
proof -
  let ?I = "\<lambda>j s'. length s' = N \<and> (\<forall>p<N. s' ! p =
      (if lo \<le> p \<and> p < j then f1 (s ! p) (s ! (p + d))
       else if lo + d \<le> p \<and> p < j + d then f2 (s ! (p - d)) (s ! p) else s ! p))"
  have "\<exists>s'. for_range lo (lo + d) body s = Some s' \<and> ?I (lo + d) s'"
  proof (rule for_range_total [where I = ?I])
    show "?I lo s" using len by auto
    show "lo \<le> lo + d" by simp
  next
    fix j s1 assume j: "lo \<le> j" "j < lo + d" and I: "?I j s1"
    have b: "body j s1 = Some (s1[j := f1 (s1 ! j) (s1 ! (j + d)), j + d := f2 (s1 ! j) (s1 ! (j + d))])"
      using body [OF j] I by simp
    have 1: "s1 ! j = s ! j" using I j le by simp
    have 2: "s1 ! (j + d) = s ! (j + d)" using I j le by simp
    have "?I (Suc j) (s1[j := f1 (s1 ! j) (s1 ! (j + d)), j + d := f2 (s1 ! j) (s1 ! (j + d))])"
      unfolding 1 2 using I j le by (auto simp: nth_list_update)
    then show "\<exists>s'. body j s1 = Some s' \<and> ?I (Suc j) s'" using b by simp
  qed
  then obtain s' where r: "for_range lo (lo + d) body s = Some s'" and I: "?I (lo + d) s'"
    by blast
  have "s' = take lo s @ pairs f1 f2 d (take (2 * d) (drop lo s)) @ drop (lo + 2 * d) s"
  proof (rule splice_eqI)
    show "length s' = length s" using I len by simp
    show "lo + 2 * d \<le> length s" using le len by simp
    show "length (pairs f1 f2 d (take (2 * d) (drop lo s))) = 2 * d"
      using le len by simp
    show "\<And>p. p < lo \<Longrightarrow> s' ! p = s ! p" using I le by simp
    show "\<And>p. lo + 2 * d \<le> p \<Longrightarrow> p < length s \<Longrightarrow> s' ! p = s ! p" using I len by simp
    show "\<And>r. r < 2 * d \<Longrightarrow> s' ! (lo + r) = pairs f1 f2 d (take (2 * d) (drop lo s)) ! r"
      using I le len by (auto simp: nth_pairs add.commute add.left_commute)
  qed
  then show ?thesis using r by simp
qed

lemma take_drop_splice:
  assumes "length c = w" and "lo + w \<le> length s"
  shows "take w (drop lo (take lo s @ c @ drop (lo + w) s)) = c"
    and "take lo (take lo s @ c @ drop (lo + w) s) = take lo s"
    and "drop (lo + w) (take lo s @ c @ drop (lo + w) s) = drop (lo + w) s"
    and "length (take lo s @ c @ drop (lo + w) s) = length s"
  using assms by simp_all

lemma pairs_pairs:
  assumes "\<And>a b. g1 (f1 a b) (f2 a b) = a" and "\<And>a b. g2 (f1 a b) (f2 a b) = b"
    and "length c = 2 * d"
  shows "pairs g1 g2 d (pairs f1 f2 d c) = c"
proof (rule nth_equalityI)
  show "length (pairs g1 g2 d (pairs f1 f2 d c)) = length c" using assms(3) by simp
next
  fix r assume "r < length (pairs g1 g2 d (pairs f1 f2 d c))"
  then have r: "r < 2 * d" using assms(3) by simp
  show "pairs g1 g2 d (pairs f1 f2 d c) ! r = c ! r"
    using r assms by (auto simp: nth_pairs)
qed

section \<open>The final pass of \<^verbatim>\<open>init_dec\<close>\<close>

lemma log_entry_in:
  assumes "i < length skew" and "length (LOG_TABLE t) = FIELD_SIZE"
  shows "log_entry t i skew = Some (skew[i := LOG_TABLE t ! unat (skew ! i)])"
  using assms by (simp add: log_entry_def)

lemma log_entry_out: "length skew \<le> i \<Longrightarrow> log_entry t i skew = None"
  by (simp add: log_entry_def)

lemma log_entry_length: "log_entry t i skew = Some skew' \<Longrightarrow> length skew' = length skew"
  by (auto simp: log_entry_def bind_eq_Some_conv)

lemma skew_to_log_None:
  assumes "length skew = MODULO"
  shows "skew_to_log t skew = None"
proof -
  have S: "FIELD_SIZE = Suc MODULO" by simp
  have "for_range 0 (Suc MODULO) (log_entry t) skew = None"
  proof (cases "for_range 0 MODULO (log_entry t) skew")
    case None
    then show ?thesis by (subst for_range_snoc) simp_all
  next
    case (Some skew')
    have "length skew' = MODULO"
      by (rule for_range_inv [OF Some]) (use assms log_entry_length in auto)
    then show ?thesis by (subst for_range_snoc) (simp_all add: Some log_entry_out)
  qed
  then show ?thesis unfolding skew_to_log_def by (subst S)
qed

text \<open>
  C3 (fails on the code).  The final pass runs \<open>i\<close> from 0 to \<open>FIELD_SIZE - 1\<close> over an
  array of \<open>MODULO = FIELD_SIZE - 1\<close> entries.  The first \<open>MODULO\<close> iterations stay inside
  the array and return; the iteration \<open>i = MODULO\<close> then accesses \<^verbatim>\<open>skewVec[65535]\<close>,
  outside the array, so the pass has no defined result.
\<close>

theorem skew_to_log_out_of_bounds:
  assumes "length skew = MODULO" and "length (LOG_TABLE t) = FIELD_SIZE"
  shows "(\<exists>skew'. for_range 0 MODULO (log_entry t) skew = Some skew' \<and> length skew' = MODULO
            \<and> log_entry t MODULO skew' = None)
         \<and> skew_to_log t skew = None"
proof -
  have "\<exists>skew'. for_range 0 MODULO (log_entry t) skew = Some skew' \<and> length skew' = MODULO"
    by (rule for_range_total [where I = "\<lambda>j s. length s = MODULO"])
      (use assms in \<open>auto simp: log_entry_in\<close>)
  then show ?thesis using assms(1) by (auto simp: log_entry_out skew_to_log_None)
qed

theorem skew_to_log_out_of_bounds_witness:
  "(\<exists>skew'. for_range 0 MODULO (log_entry zero_tables) (skewVec zero_tables) = Some skew'
       \<and> length skew' = MODULO \<and> log_entry zero_tables MODULO skew' = None)
   \<and> skew_to_log zero_tables (skewVec zero_tables) = None"
  by (rule skew_to_log_out_of_bounds) (simp_all add: zero_tables_def)

subsection \<open>No run of \<^verbatim>\<open>setup\<close> gets past that pass\<close>

lemma skew_level_length:
  assumes "skew_level t m (skew, base) = Some (skew', base')"
  shows "length skew' = length skew"
proof -
  from assms obtain s1 s2 where w: "wr skew (2 ^ m - 1) 0 = Some s1"
    and l: "for_range m (FIELD_BITS - 1) (\<lambda>i skew.
       let s = 2 ^ (i + 1) in
       for_step (2 ^ m - 1) s (2 ^ (m + 1)) (\<lambda>j skew. do {
         v \<leftarrow> rd skew j;
         b \<leftarrow> rd base i;
         wr skew (j + s) (v XOR b)
       }) skew) s1 = Some s2" and e: "skew' = s2"
    unfolding skew_level_def by (auto simp: bind_eq_Some_conv Let_def simp del: wr_Some_iff)
  have 1: "length s1 = length skew" using w by auto
  have "length s2 = length skew"
  proof (rule for_range_inv [OF l])
    show "length s1 = length skew" by (rule 1)
  next
    fix j s s'
    assume P: "length s = length skew" and b: "(let sa = 2 ^ (j + 1) in
       for_step (2 ^ m - 1) sa (2 ^ (m + 1)) (\<lambda>ja skew. do {
         v \<leftarrow> rd skew ja;
         b \<leftarrow> rd base j;
         wr skew (ja + sa) (v XOR b)
       }) s) = Some s'"
    show "length s' = length skew"
      by (rule for_step_inv [OF b [unfolded Let_def]]) (use P in \<open>auto simp: bind_eq_Some_conv\<close>)
  qed
  then show ?thesis using e by simp
qed

lemma init_dec_None:
  assumes "length (skewVec t) = MODULO"
  shows "init_dec t = None"
proof (cases "skew_levels t")
  case None
  then show ?thesis by (simp add: init_dec_def)
next
  case r: (Some r)
  then obtain base where l: "for_range 0 (FIELD_BITS - 1) (skew_level t) (skewVec t, base) = Some r"
    unfolding skew_levels_def by (auto simp: bind_eq_Some_conv)
  have "length (fst r) = MODULO"
    by (rule for_range_inv [OF l]) (use assms skew_level_length in auto)
  then have n: "skew_to_log t (fst r) = None" by (simp add: skew_to_log_None)
  show ?thesis unfolding init_dec_def using n r by (simp add: split_beta)
qed

lemma init_skewVec: "init t = Some t' \<Longrightarrow> skewVec t' = skewVec t"
  unfolding init_def by (auto simp: bind_eq_Some_conv simp del: wr_Some_iff rd_Some_iff)

lemma setup_c_None:
  assumes "length (skewVec t) = MODULO"
  shows "setup_c t = None"
proof (cases "init t")
  case None
  then show ?thesis by (simp add: setup_c_def)
next
  case (Some t')
  then show ?thesis using assms by (simp add: setup_c_def init_dec_None init_skewVec)
qed

section \<open>The last loop of \<^verbatim>\<open>decode_main\<close>\<close>

lemma recover_loop_zero:
  assumes "for_range 0 k (recover t erasure log_walsh2) codeword = Some codeword'"
    and "i < k" and "erasure ! i = 0"
  shows "codeword' ! i = 0"
proof -
  let ?I = "\<lambda>j cw. \<forall>i<j. erasure ! i = 0 \<longrightarrow> i < length cw \<and> cw ! i = 0"
  have "?I k codeword'"
  proof (rule for_range_partial [OF assms(1), where I = ?I])
    show "?I 0 codeword" by simp
    show "0 \<le> k" by simp
  next
    fix j s s'
    assume I: "?I j s" and b: "recover t erasure log_walsh2 j s = Some s'"
    from b obtain v where s': "s' = s[j := v]" and j: "j < length s"
      and z: "erasure ! j = 0 \<longrightarrow> v = 0"
      by (auto simp: recover_def bind_eq_Some_conv split: if_splits)
    show "?I (Suc j) s'"
    proof (intro allI impI)
      fix i assume "i < Suc j" and e: "erasure ! i = 0"
      then consider "i < j" | "i = j" by linarith
      then show "i < length s' \<and> s' ! i = 0"
      proof cases
        case 1
        then show ?thesis using I e s' by simp
      next
        case 2
        then show ?thesis using z e s' j by simp
      qed
    qed
  qed
  then show ?thesis using assms(2,3) by simp
qed

section \<open>The Walsh-Hadamard transform\<close>

lemma walsh_body_eq:
  assumes "i + d < length s"
  shows "walsh_body d i s = Some (s[i := wsum (s ! i) (s ! (i + d)), i + d := wdiff (s ! i) (s ! (i + d))])"
  using assms by (simp add: walsh_body_def wsum_def wdiff_def Let_def)

lemma pow2_split:
  assumes "e < m"
  shows "(2::nat) ^ (m - e - 1) * (2 * 2 ^ e) = 2 ^ m"
proof -
  have "(2::nat) ^ (m - e - 1) * (2 * 2 ^ e) = 2 ^ (m - e - 1 + Suc e)"
    by (simp only: power_add power_Suc)
  also have "m - e - 1 + Suc e = m" using assms by simp
  finally show ?thesis .
qed

lemma walsh_stage_eq:
  assumes "e < m" and "2 ^ m \<le> length s"
  shows "for_step 0 (2 ^ m) (2 * 2 ^ e) (\<lambda>j. for_range j (2 ^ e + j) (walsh_body (2 ^ e))) s
    = Some (walsh_stage m e s)"
proof -
  let ?d = "(2::nat) ^ e" and ?K = "(2::nat) ^ (m - e - 1)"
  have KW: "?K * (2 * ?d) = 2 ^ m" using pow2_split [OF assms(1)] .
  have "for_step 0 (2 ^ m) (2 * ?d) (\<lambda>j. for_range j (?d + j) (walsh_body ?d)) s
    = for_range 0 ?K (\<lambda>k. for_range (0 + k * (2 * ?d)) (?d + (0 + k * (2 * ?d))) (walsh_body ?d)) s"
  proof (rule for_step_as_range)
    show "0 < 2 * ?d" by simp
    show "2 ^ m \<le> 0 + ?K * (2 * ?d)" using KW by simp
    have "(?K - 1) * (2 * ?d) < ?K * (2 * ?d)" by (rule mult_less_mono1) simp_all
    then have "(?K - 1) * (2 * ?d) < 2 ^ m" by (simp only: KW)
    then show "?K = 0 \<or> 0 + (?K - 1) * (2 * ?d) < 2 ^ m" by (simp only: add_0) simp
  qed
  also have "\<dots> = Some (blocks (\<lambda>k. pairs wsum wdiff ?d) (2 * ?d) ?K s)"
  proof (rule for_range_blocks [where N = "length s"])
    fix k and s1 :: "GFSymbol list" assume k: "k < ?K" and l: "length s1 = length s"
    have "Suc k \<le> ?K" using k by simp
    then have "Suc k * (2 * ?d) \<le> ?K * (2 * ?d)" by (rule mult_le_mono1)
    then have le: "k * (2 * ?d) + 2 * ?d \<le> length s" using KW assms(2) by simp
    have "for_range (k * (2 * ?d)) (k * (2 * ?d) + ?d) (walsh_body ?d) s1
      = Some (take (k * (2 * ?d)) s1 @ pairs wsum wdiff ?d (take (2 * ?d) (drop (k * (2 * ?d)) s1))
          @ drop (k * (2 * ?d) + 2 * ?d) s1)"
      by (rule pair_loop [where N = "length s"]) (use le l in \<open>auto simp: walsh_body_eq\<close>)
    then show "for_range (0 + k * (2 * ?d)) (?d + (0 + k * (2 * ?d))) (walsh_body ?d) s1
      = Some (take (k * (2 * ?d)) s1 @ pairs wsum wdiff ?d (chunk (2 * ?d) k s1)
          @ drop (Suc k * (2 * ?d)) s1)"
      by (simp add: chunk_def add.commute)
  next
    show "\<And>k c. k < ?K \<Longrightarrow> length c = 2 * ?d \<Longrightarrow> length (pairs wsum wdiff ?d c) = 2 * ?d"
      by simp
    show "?K * (2 * ?d) \<le> length s" using KW assms(2) by simp
    show "length s = length s" by simp
  qed
  finally show ?thesis by (simp only: walsh_stage_def)
qed

lemma length_walsh_stage:
  assumes "e < m" and "2 ^ m \<le> length s"
  shows "length (walsh_stage m e s) = length s"
  unfolding walsh_stage_def
  by (rule length_blocks) (use pow2_split [OF assms(1)] assms(2) in auto)

lemma walsh_as_stages:
  "walsh data (2 ^ m) = for_range 0 m (\<lambda>e.
       for_step 0 (2 ^ m) (2 * 2 ^ e) (\<lambda>j. for_range j (2 ^ e + j) (walsh_body (2 ^ e)))) data"
  using for_shl_as_range [of 0 m _ data] by (simp add: walsh_def)

lemma walsh_total:
  assumes "2 ^ m \<le> length data"
  shows "\<exists>data'. walsh data (2 ^ m) = Some data' \<and> length data' = length data"
  unfolding walsh_as_stages
  by (rule for_range_total [where I = "\<lambda>e s. length s = length data"])
    (use assms in \<open>auto simp: walsh_stage_eq length_walsh_stage\<close>)

lemma butterfly_range:
  fixes a b :: GFSymbol
  shows "fold_reduce (unat a + unat b) \<le> MODULO"
    and "fold_reduce (unat a + unat b) mod MODULO = (unat a + unat b) mod MODULO"
    and "fold_reduce (unat a + MODULO - unat b) \<le> MODULO"
    and "(fold_reduce (unat a + MODULO - unat b) + unat b) mod MODULO = unat a mod MODULO"
    and "unat (wsum a b) = fold_reduce (unat a + unat b)"
    and "unat (wdiff a b) = fold_reduce (unat a + MODULO - unat b)"
proof -
  have a: "unat a \<le> MODULO" and b: "unat b \<le> MODULO" by simp_all
  show "fold_reduce (unat a + unat b) \<le> MODULO"
    by (rule fold_reduce_le) (use a b in linarith)
  show "fold_reduce (unat a + unat b) mod MODULO = (unat a + unat b) mod MODULO"
    by (rule fold_reduce_cong)
  show "fold_reduce (unat a + MODULO - unat b) \<le> MODULO"
    by (rule fold_reduce_le) (use a b in linarith)
  have "(fold_reduce (unat a + MODULO - unat b) + unat b) mod MODULO
      = (fold_reduce (unat a + MODULO - unat b) mod MODULO + unat b) mod MODULO"
    by (simp add: mod_add_left_eq)
  also have "\<dots> = ((unat a + MODULO - unat b) + unat b) mod MODULO"
    by (simp only: fold_reduce_cong mod_add_left_eq)
  also have "(unat a + MODULO - unat b) + unat b = unat a + MODULO" using b by linarith
  finally show "(fold_reduce (unat a + MODULO - unat b) + unat b) mod MODULO = unat a mod MODULO"
    by simp
  show "unat (wsum a b) = fold_reduce (unat a + unat b)"
    unfolding wsum_def by (rule unat_of_nat_fold) (use a b in linarith)
  show "unat (wdiff a b) = fold_reduce (unat a + MODULO - unat b)"
    unfolding wdiff_def by (rule unat_of_nat_fold) (use a b in linarith)
qed

lemma walsh_small: "walsh [1, 65534] 2 = Some [65535, 2]"
  by (simp add: walsh_def walsh_body_def fold_reduce_alt
      for_range.simps for_step.simps for_shl.simps)

text \<open>
  C4 as stated fails: the fold of a sum or difference that equals \<open>MODULO\<close> is \<open>MODULO\<close>
  itself, not 0.  On the array \<open>[1, 65534]\<close>, whose entries are below \<open>MODULO\<close>, the
  transform of size 2 stores \<open>1 + 65534 = 65535\<close> at position 0.
\<close>

theorem walsh_half_open_range_counterexample:
  "unat (1 :: GFSymbol) < MODULO \<and> unat (65534 :: GFSymbol) < MODULO
   \<and> walsh [1, 65534] 2 = Some [65535, 2]
   \<and> \<not> unat ([65535, 2 :: GFSymbol] ! 0) < MODULO"
  by (simp add: walsh_small)
section \<open>The transform pair\<close>

lemma mulE_total:
  assumes "length (LOG_TABLE t) = FIELD_SIZE" and "length (EXP_TABLE t) = FIELD_SIZE"
  shows "mulE t a b = Some (mulE_val t a b)"
proof -
  have "unat (LOG_TABLE t ! unat a) + unat b \<le> 2 * MODULO"
    using unat16_le [of "LOG_TABLE t ! unat a"] unat16_le [of b] by linarith
  then have "fold_reduce (unat (LOG_TABLE t ! unat a) + unat b) < FIELD_SIZE"
    using fold_reduce_le by fastforce
  then show ?thesis using assms by (simp add: mulE_def mulE_val_def)
qed

lemma xor_up_eq:
  assumes "i + d < length s"
  shows "xor_up d i s = Some (s[i := s ! i, i + d := s ! (i + d) XOR s ! i])"
  using assms by (simp add: xor_up_def)

lemma xor_mul_eq:
  assumes "i + d < length s" and "0 < d"
    and "length (LOG_TABLE t) = FIELD_SIZE" and "length (EXP_TABLE t) = FIELD_SIZE"
  shows "xor_mul t skew d i s
    = Some (s[i := s ! i XOR mulE_val t (s ! (i + d)) skew, i + d := s ! (i + d)])"
proof -
  have "(s[i := s ! i XOR mulE_val t (s ! (i + d)) skew]) [i + d := s ! (i + d)]
      = s[i := s ! i XOR mulE_val t (s ! (i + d)) skew]"
    using assms(1,2) by (simp add: list_update_same_conv)
  then show ?thesis using assms by (simp add: xor_mul_def mulE_total)
qed

lemma length_ustep [simp]: "length c = 2 * d \<Longrightarrow> length (ustep d c) = 2 * d"
  by (simp add: ustep_def)

lemma length_mstep [simp]: "length c = 2 * d \<Longrightarrow> length (mstep t skew d c) = 2 * d"
  by (simp add: mstep_def)

lemma xor_twice [simp]: "(b XOR a) XOR a = (b :: GFSymbol)"
  by (simp add: xor.assoc)

lemma ustep_ustep: "length c = 2 * d \<Longrightarrow> ustep d (ustep d c) = c"
  unfolding ustep_def by (rule pairs_pairs) simp_all

lemma mstep_mstep: "length c = 2 * d \<Longrightarrow> mstep t skew d (mstep t skew d c) = c"
proof (cases "unat skew \<noteq> MODULO")
  case True
  have "pairs (\<lambda>a b. a XOR mulE_val t b skew) (\<lambda>a b. b) d
      (pairs (\<lambda>a b. a XOR mulE_val t b skew) (\<lambda>a b. b) d c) = c" if "length c = 2 * d"
    by (rule pairs_pairs) (use that in simp_all)
  then show "length c = 2 * d \<Longrightarrow> mstep t skew d (mstep t skew d c) = c"
    using True by (simp add: mstep_def)
next
  case False
  then show ?thesis by (simp add: mstep_def)
qed

lemma ustep_loop:
  assumes "lo + 2 * d \<le> length s"
  shows "for_range lo (lo + d) (xor_up d) s
    = Some (take lo s @ ustep d (take (2 * d) (drop lo s)) @ drop (lo + 2 * d) s)"
  unfolding ustep_def
  by (rule pair_loop [where N = "length s"]) (use assms in \<open>auto simp: xor_up_eq\<close>)

lemma mstep_loop:
  assumes "lo + 2 * d \<le> length s" and "0 < d"
    and "length (LOG_TABLE t) = FIELD_SIZE" and "length (EXP_TABLE t) = FIELD_SIZE"
  shows "(if unat skew \<noteq> MODULO then for_range lo (lo + d) (xor_mul t skew d) s else Some s)
    = Some (take lo s @ mstep t skew d (take (2 * d) (drop lo s)) @ drop (lo + 2 * d) s)"
proof (cases "unat skew \<noteq> MODULO")
  case True
  have "for_range lo (lo + d) (xor_mul t skew d) s
    = Some (take lo s @ pairs (\<lambda>a b. a XOR mulE_val t b skew) (\<lambda>a b. b) d (take (2 * d) (drop lo s))
        @ drop (lo + 2 * d) s)"
    by (rule pair_loop [where N = "length s"]) (use assms in \<open>auto simp: xor_mul_eq\<close>)
  then show ?thesis using True by (simp add: mstep_def)
next
  case False
  have "take lo s @ take (2 * d) (drop lo s) @ drop (lo + 2 * d) s = s"
    by (metis append_take_drop_id drop_drop add.commute)
  then show ?thesis using False by (simp add: mstep_def)
qed

lemma IFLT_block_eq:
  assumes "lo + 2 * d \<le> length s" and "0 < d" and "lo + d + index - 1 < length (skewVec t)"
    and "length (LOG_TABLE t) = FIELD_SIZE" and "length (EXP_TABLE t) = FIELD_SIZE"
  shows "IFLT_block t d index (lo + d) s
    = Some (take lo s @ mstep t (skewVec t ! (lo + d + index - 1)) d
        (ustep d (take (2 * d) (drop lo s))) @ drop (lo + 2 * d) s)"
proof -
  define sk where "sk = skewVec t ! (lo + d + index - 1)"
  define c where "c = take (2 * d) (drop lo s)"
  define s1 where "s1 = take lo s @ ustep d c @ drop (lo + 2 * d) s"
  have rdsk: "rd (skewVec t) (lo + d + index - 1) = Some sk"
    unfolding sk_def by (rule rd_in [OF assms(3)])
  have u: "for_range lo (lo + d) (xor_up d) s = Some s1"
    unfolding s1_def c_def by (rule ustep_loop [OF assms(1)])
  have c: "length (ustep d c) = 2 * d" using assms(1) by (simp add: c_def)
  have l1: "lo + 2 * d \<le> length s1" using assms(1) c by (simp add: s1_def)
  have "(if unat sk \<noteq> MODULO then for_range lo (lo + d) (xor_mul t sk d) s1 else Some s1)
      = Some (take lo s1 @ mstep t sk d (take (2 * d) (drop lo s1)) @ drop (lo + 2 * d) s1)"
    by (rule mstep_loop [OF l1 assms(2,4,5)])
  also have "take (2 * d) (drop lo s1) = ustep d c"
    unfolding s1_def by (rule take_drop_splice(1) [OF c assms(1)])
  also have "take lo s1 = take lo s"
    unfolding s1_def by (rule take_drop_splice(2) [OF c assms(1)])
  also have "drop (lo + 2 * d) s1 = drop (lo + 2 * d) s"
    unfolding s1_def by (rule take_drop_splice(3) [OF c assms(1)])
  finally have m: "(if unat sk \<noteq> MODULO then for_range lo (lo + d) (xor_mul t sk d) s1
      else Some s1) = Some (take lo s @ mstep t sk d (ustep d c) @ drop (lo + 2 * d) s)" .
  have "IFLT_block t d index (lo + d) s
      = Some (take lo s @ mstep t sk d (ustep d c) @ drop (lo + 2 * d) s)"
    by (simp only: IFLT_block_def add_diff_cancel_right' u rdsk bind.simps m)
  then show ?thesis by (simp only: sk_def c_def)
qed

lemma FLT_block_eq:
  assumes "lo + 2 * d \<le> length s" and "0 < d" and "lo + d + index - 1 < length (skewVec t)"
    and "length (LOG_TABLE t) = FIELD_SIZE" and "length (EXP_TABLE t) = FIELD_SIZE"
  shows "FLT_block t d index (lo + d) s
    = Some (take lo s @ ustep d (mstep t (skewVec t ! (lo + d + index - 1)) d
        (take (2 * d) (drop lo s))) @ drop (lo + 2 * d) s)"
proof -
  define sk where "sk = skewVec t ! (lo + d + index - 1)"
  define c where "c = take (2 * d) (drop lo s)"
  define s1 where "s1 = take lo s @ mstep t sk d c @ drop (lo + 2 * d) s"
  have rdsk: "rd (skewVec t) (lo + d + index - 1) = Some sk"
    unfolding sk_def by (rule rd_in [OF assms(3)])
  have m: "(if unat sk \<noteq> MODULO then for_range lo (lo + d) (xor_mul t sk d) s else Some s)
      = Some s1"
    unfolding s1_def c_def by (rule mstep_loop [OF assms(1,2,4,5)])
  have c: "length (mstep t sk d c) = 2 * d" using assms(1) by (simp add: c_def)
  have l1: "lo + 2 * d \<le> length s1" using assms(1) c by (simp add: s1_def)
  have "for_range lo (lo + d) (xor_up d) s1
      = Some (take lo s1 @ ustep d (take (2 * d) (drop lo s1)) @ drop (lo + 2 * d) s1)"
    by (rule ustep_loop [OF l1])
  also have "take (2 * d) (drop lo s1) = mstep t sk d c"
    unfolding s1_def by (rule take_drop_splice(1) [OF c assms(1)])
  also have "take lo s1 = take lo s"
    unfolding s1_def by (rule take_drop_splice(2) [OF c assms(1)])
  also have "drop (lo + 2 * d) s1 = drop (lo + 2 * d) s"
    unfolding s1_def by (rule take_drop_splice(3) [OF c assms(1)])
  finally have u: "for_range lo (lo + d) (xor_up d) s1
      = Some (take lo s @ ustep d (mstep t sk d c) @ drop (lo + 2 * d) s)" .
  have "FLT_block t d index (lo + d) s
      = Some (take lo s @ ustep d (mstep t sk d c) @ drop (lo + 2 * d) s)"
    by (simp only: FLT_block_def add_diff_cancel_right' rdsk bind.simps m u)
  then show ?thesis by (simp only: sk_def c_def)
qed

text \<open>One stage of either transform: the \<^verbatim>\<open>j\<close> loop visits the middles
  \<open>2 ^ e + k * 2 ^ (e + 1)\<close> of the blocks of \<open>2 ^ (e + 1)\<close> entries.\<close>

lemma stage_blocks:
  assumes "e < m" and "2 ^ m \<le> length s"
    and blk: "\<And>k s1. k < 2 ^ (m - e - 1) \<Longrightarrow> length s1 = length s \<Longrightarrow>
      blk (2 ^ e + k * (2 * 2 ^ e)) s1
      = Some (take (k * (2 * 2 ^ e)) s1 @ G k (chunk (2 * 2 ^ e) k s1)
          @ drop (Suc k * (2 * 2 ^ e)) s1)"
    and len: "\<And>k c. length c = 2 * 2 ^ e \<Longrightarrow> length (G k c) = 2 * 2 ^ e"
  shows "for_step (2 ^ e) (2 ^ m) (2 * 2 ^ e) blk s
    = Some (blocks G (2 * 2 ^ e) (2 ^ (m - e - 1)) s)"
proof -
  let ?d = "(2::nat) ^ e" and ?K = "(2::nat) ^ (m - e - 1)"
  have KW: "?K * (2 * ?d) = 2 ^ m" using pow2_split [OF assms(1)] .
  have "for_step ?d (2 ^ m) (2 * ?d) blk s = for_range 0 ?K (\<lambda>k. blk (?d + k * (2 * ?d))) s"
  proof (rule for_step_as_range)
    show "0 < 2 * ?d" by simp
    show "2 ^ m \<le> ?d + ?K * (2 * ?d)" using KW by linarith
    have "Suc (?K - 1) = ?K" by simp
    then have "(?K - 1) * (2 * ?d) + 2 * ?d = ?K * (2 * ?d)"
      by (metis mult_Suc add.commute)
    then have "(?K - 1) * (2 * ?d) + 2 * ?d = 2 ^ m" by (simp only: KW)
    moreover have "?d < 2 * ?d" by simp
    ultimately have "?d + (?K - 1) * (2 * ?d) < 2 ^ m" by linarith
    then show "?K = 0 \<or> ?d + (?K - 1) * (2 * ?d) < 2 ^ m" by (rule disjI2)
  qed
  also have "\<dots> = Some (blocks G (2 * ?d) ?K s)"
    by (rule for_range_blocks [where N = "length s"]) (use blk len KW assms(2) in auto)
  finally show ?thesis .
qed

lemma skew_index_ok:
  assumes "e < m" and "k < 2 ^ (m - e - 1)"
    and "\<forall>j. 0 < j \<and> j < 2 ^ m \<longrightarrow> j + index - 1 < length (skewVec t)"
  shows "k * (2 * 2 ^ e) + 2 ^ e + index - 1 < length (skewVec t)"
    and "k * (2 * 2 ^ e) + 2 * 2 ^ e \<le> 2 ^ m"
proof -
  have "Suc k \<le> 2 ^ (m - e - 1)" using assms(2) by simp
  then have "Suc k * (2 * 2 ^ e) \<le> 2 ^ (m - e - 1) * (2 * 2 ^ e)" by (rule mult_le_mono1)
  then show le: "k * (2 * 2 ^ e) + 2 * 2 ^ e \<le> 2 ^ m"
    by (simp only: pow2_split [OF assms(1)]) simp
  have "(2::nat) ^ e < 2 * 2 ^ e" by simp
  then have "k * (2 * 2 ^ e) + 2 ^ e < 2 ^ m" using le by linarith
  moreover have "0 < k * (2 * 2 ^ e) + 2 ^ e" by simp
  ultimately show "k * (2 * 2 ^ e) + 2 ^ e + index - 1 < length (skewVec t)"
    using assms(3) by blast
qed

lemma IFLT_stage_eq:
  assumes "e < m" and "2 ^ m \<le> length s"
    and "\<forall>j. 0 < j \<and> j < 2 ^ m \<longrightarrow> j + index - 1 < length (skewVec t)"
    and "length (LOG_TABLE t) = FIELD_SIZE" and "length (EXP_TABLE t) = FIELD_SIZE"
  shows "for_step (2 ^ e) (2 ^ m) (2 * 2 ^ e) (IFLT_block t (2 ^ e) index) s
    = Some (IFLT_stage t index m e s)"
  unfolding IFLT_stage_def
proof (rule stage_blocks [OF assms(1,2)])
  fix k :: nat and s1 :: "GFSymbol list"
  assume k: "k < 2 ^ (m - e - 1)" and l: "length s1 = length s"
  let ?lo = "k * (2 * 2 ^ e)"
  have "?lo + 2 * 2 ^ e \<le> length s1"
    using skew_index_ok(2) [OF assms(1) k assms(3)] assms(2) l by linarith
  then have "IFLT_block t (2 ^ e) index (?lo + 2 ^ e) s1
    = Some (take ?lo s1 @ mstep t (skewVec t ! (?lo + 2 ^ e + index - 1)) (2 ^ e)
        (ustep (2 ^ e) (take (2 * 2 ^ e) (drop ?lo s1))) @ drop (?lo + 2 * 2 ^ e) s1)"
    by (rule IFLT_block_eq) (use skew_index_ok(1) [OF assms(1) k assms(3)] assms(4,5) in simp_all)
  then show "IFLT_block t (2 ^ e) index (2 ^ e + ?lo) s1
    = Some (take ?lo s1 @ mstep t (skew_at t index e k) (2 ^ e)
        (ustep (2 ^ e) (chunk (2 * 2 ^ e) k s1)) @ drop (Suc k * (2 * 2 ^ e)) s1)"
    by (simp add: skew_at_def chunk_def add.commute)
qed simp

lemma FLT_stage_eq:
  assumes "e < m" and "2 ^ m \<le> length s"
    and "\<forall>j. 0 < j \<and> j < 2 ^ m \<longrightarrow> j + index - 1 < length (skewVec t)"
    and "length (LOG_TABLE t) = FIELD_SIZE" and "length (EXP_TABLE t) = FIELD_SIZE"
  shows "for_step (2 ^ e) (2 ^ m) (2 * 2 ^ e) (FLT_block t (2 ^ e) index) s
    = Some (FLT_stage t index m e s)"
  unfolding FLT_stage_def
proof (rule stage_blocks [OF assms(1,2)])
  fix k :: nat and s1 :: "GFSymbol list"
  assume k: "k < 2 ^ (m - e - 1)" and l: "length s1 = length s"
  let ?lo = "k * (2 * 2 ^ e)"
  have "?lo + 2 * 2 ^ e \<le> length s1"
    using skew_index_ok(2) [OF assms(1) k assms(3)] assms(2) l by linarith
  then have "FLT_block t (2 ^ e) index (?lo + 2 ^ e) s1
    = Some (take ?lo s1 @ ustep (2 ^ e) (mstep t (skewVec t ! (?lo + 2 ^ e + index - 1)) (2 ^ e)
        (take (2 * 2 ^ e) (drop ?lo s1))) @ drop (?lo + 2 * 2 ^ e) s1)"
    by (rule FLT_block_eq) (use skew_index_ok(1) [OF assms(1) k assms(3)] assms(4,5) in simp_all)
  then show "FLT_block t (2 ^ e) index (2 ^ e + ?lo) s1
    = Some (take ?lo s1 @ ustep (2 ^ e) (mstep t (skew_at t index e k) (2 ^ e)
        (chunk (2 * 2 ^ e) k s1)) @ drop (Suc k * (2 * 2 ^ e)) s1)"
    by (simp add: skew_at_def chunk_def add.commute)
qed simp

lemma stage_KW: "e < m \<Longrightarrow> 2 ^ m \<le> length s \<Longrightarrow> 2 ^ (m - e - 1) * (2 * 2 ^ e) \<le> length s"
  by (simp only: pow2_split)

lemma length_IFLT_stage:
  assumes "e < m" and "2 ^ m \<le> length s"
  shows "length (IFLT_stage t index m e s) = length s"
  unfolding IFLT_stage_def by (rule length_blocks) (use stage_KW [OF assms] in simp_all)

lemma length_FLT_stage:
  assumes "e < m" and "2 ^ m \<le> length s"
  shows "length (FLT_stage t index m e s) = length s"
  unfolding FLT_stage_def by (rule length_blocks) (use stage_KW [OF assms] in simp_all)

lemma IFLT_stage_FLT_stage:
  assumes "e < m" and "2 ^ m \<le> length s"
  shows "IFLT_stage t index m e (FLT_stage t index m e s) = s"
  unfolding IFLT_stage_def FLT_stage_def
  by (rule blocks_inverse) (use stage_KW [OF assms] in \<open>simp_all add: ustep_ustep mstep_mstep\<close>)

lemma FLT_stage_IFLT_stage:
  assumes "e < m" and "2 ^ m \<le> length s"
  shows "FLT_stage t index m e (IFLT_stage t index m e s) = s"
  unfolding IFLT_stage_def FLT_stage_def
  by (rule blocks_inverse) (use stage_KW [OF assms] in \<open>simp_all add: ustep_ustep mstep_mstep\<close>)

lemma length_IFLT_stages:
  "n \<le> m \<Longrightarrow> 2 ^ m \<le> length s \<Longrightarrow> length (IFLT_stages t index m n s) = length s"
  by (induction n) (simp_all add: length_IFLT_stage)

lemma length_FLT_stages:
  "n \<le> m \<Longrightarrow> 2 ^ m \<le> length s \<Longrightarrow> length (FLT_stages t index m n s) = length s"
  by (induction n arbitrary: s) (simp_all add: length_FLT_stage)

lemma IFLT_stages_FLT_stages:
  "n \<le> m \<Longrightarrow> 2 ^ m \<le> length s \<Longrightarrow> IFLT_stages t index m n (FLT_stages t index m n s) = s"
  by (induction n arbitrary: s) (simp_all add: length_FLT_stage IFLT_stage_FLT_stage)

lemma FLT_stages_IFLT_stages:
  "n \<le> m \<Longrightarrow> 2 ^ m \<le> length s \<Longrightarrow> FLT_stages t index m n (IFLT_stages t index m n s) = s"
  by (induction n) (simp_all add: length_IFLT_stages FLT_stage_IFLT_stage)

lemma IFLT_upto:
  assumes "2 ^ m \<le> length s"
    and "\<forall>j. 0 < j \<and> j < 2 ^ m \<longrightarrow> j + index - 1 < length (skewVec t)"
    and "length (LOG_TABLE t) = FIELD_SIZE" and "length (EXP_TABLE t) = FIELD_SIZE"
  shows "n \<le> m \<Longrightarrow>
    for_range 0 n (\<lambda>e. for_step (2 ^ e) (2 ^ m) (2 * 2 ^ e) (IFLT_block t (2 ^ e) index)) s
      = Some (IFLT_stages t index m n s)"
proof (induction n)
  case 0
  then show ?case by (simp add: for_range_stop)
next
  case (Suc n)
  then have n: "n < m" by simp
  have l: "2 ^ m \<le> length (IFLT_stages t index m n s)"
    using length_IFLT_stages [of n m s t index] n assms(1) by simp
  show ?case
    using Suc.IH n by (simp add: for_range_snoc IFLT_stage_eq [OF n l assms(2,3,4)])
qed

lemma IFLT_eq:
  assumes "2 ^ m \<le> length s"
    and "\<forall>j. 0 < j \<and> j < 2 ^ m \<longrightarrow> j + index - 1 < length (skewVec t)"
    and "length (LOG_TABLE t) = FIELD_SIZE" and "length (EXP_TABLE t) = FIELD_SIZE"
  shows "IFLT t s (2 ^ m) index = Some (IFLT_stages t index m m s)"
proof -
  have "IFLT t s (2 ^ m) index
    = for_range 0 m (\<lambda>e. for_step (2 ^ e) (2 ^ m) (2 * 2 ^ e) (IFLT_block t (2 ^ e) index)) s"
    using for_shl_as_range [of 0 m _ s] by (simp add: IFLT_def)
  then show ?thesis using IFLT_upto [OF assms, of m] by simp
qed

lemma FLT_upto:
  assumes "\<forall>j. 0 < j \<and> j < 2 ^ m \<longrightarrow> j + index - 1 < length (skewVec t)"
    and "length (LOG_TABLE t) = FIELD_SIZE" and "length (EXP_TABLE t) = FIELD_SIZE"
  shows "n \<le> m \<Longrightarrow> 2 ^ m \<le> length s \<Longrightarrow>
    for_shr (2 ^ n div 2) (\<lambda>d. for_step d (2 ^ m) (2 * d) (FLT_block t d index)) s
      = Some (FLT_stages t index m n s)"
proof (induction n arbitrary: s)
  case 0
  then show ?case by (simp add: for_shr_stop)
next
  case (Suc n)
  then have n: "n < m" by simp
  have l: "2 ^ m \<le> length (FLT_stage t index m n s)"
    using length_FLT_stage [OF n Suc.prems(2)] Suc.prems(2) by simp
  have ih: "for_shr (2 ^ n div 2) (\<lambda>d. for_step d (2 ^ m) (2 * d) (FLT_block t d index))
      (FLT_stage t index m n s) = Some (FLT_stages t index m n (FLT_stage t index m n s))"
    by (rule Suc.IH) (use n l in simp_all)
  have "for_shr (2 ^ n) (\<lambda>d. for_step d (2 ^ m) (2 * d) (FLT_block t d index)) s
      = Some (FLT_stages t index m n (FLT_stage t index m n s))"
    by (subst for_shr_step) (simp_all add: FLT_stage_eq [OF n Suc.prems(2) assms] ih)
  then show ?case by simp
qed

lemma FLT_eq:
  assumes "2 ^ m \<le> length s"
    and "\<forall>j. 0 < j \<and> j < 2 ^ m \<longrightarrow> j + index - 1 < length (skewVec t)"
    and "length (LOG_TABLE t) = FIELD_SIZE" and "length (EXP_TABLE t) = FIELD_SIZE"
  shows "FLT t s (2 ^ m) index = Some (FLT_stages t index m m s)"
  using FLT_upto [OF assms(2,3,4), of m s] assms(1) by (simp add: FLT_def)

text \<open>
  C2.  For a block size \<open>2 ^ m\<close> inside the array, an offset for which every skew lookup
  \<^verbatim>\<open>skewVec[j+index-1]\<close> (\<open>0 < j < size\<close>) is inside the skew vector, and log and exp
  tables of the declared size (those of \<^verbatim>\<open>setup\<close> in particular), \<^verbatim>\<open>FLT\<close> and \<^verbatim>\<open>IFLT\<close>
  both return, and each undoes the other.
\<close>

theorem FLT_IFLT_inverse:
  assumes "sz = 2 ^ m" and "sz \<le> length x"
    and "\<forall>j. 0 < j \<and> j < sz \<longrightarrow> j + index - 1 < length (skewVec t)"
    and "length (LOG_TABLE t) = FIELD_SIZE" and "length (EXP_TABLE t) = FIELD_SIZE"
  shows "(\<exists>y. FLT t x sz index = Some y \<and> IFLT t y sz index = Some x)
       \<and> (\<exists>y. IFLT t x sz index = Some y \<and> FLT t y sz index = Some x)"
proof -
  have le: "2 ^ m \<le> length x" using assms(1,2) by simp
  have sk: "\<forall>j. 0 < j \<and> j < 2 ^ m \<longrightarrow> j + index - 1 < length (skewVec t)"
    using assms(1,3) by simp
  have lf: "2 ^ m \<le> length (FLT_stages t index m m x)"
    using length_FLT_stages [of m m x t index] le by simp
  have li: "2 ^ m \<le> length (IFLT_stages t index m m x)"
    using length_IFLT_stages [of m m x t index] le by simp
  have "FLT t x sz index = Some (FLT_stages t index m m x)"
    unfolding assms(1) by (rule FLT_eq [OF le sk assms(4,5)])
  moreover have "IFLT t (FLT_stages t index m m x) sz index = Some x"
    unfolding assms(1) using IFLT_eq [OF lf sk assms(4,5)] le
    by (simp add: IFLT_stages_FLT_stages)
  moreover have "IFLT t x sz index = Some (IFLT_stages t index m m x)"
    unfolding assms(1) by (rule IFLT_eq [OF le sk assms(4,5)])
  moreover have "FLT t (IFLT_stages t index m m x) sz index = Some x"
    unfolding assms(1) using FLT_eq [OF li sk assms(4,5)] le
    by (simp add: FLT_stages_IFLT_stages)
  ultimately show ?thesis by simp
qed

theorem FLT_IFLT_inverse_witness:
  "(\<exists>y. FLT zero_tables [1, 2, 3, 5] 4 4 = Some y \<and> IFLT zero_tables y 4 4 = Some [1, 2, 3, 5])
   \<and> (\<exists>y. IFLT zero_tables [1, 2, 3, 5] 4 4 = Some y \<and> FLT zero_tables y 4 4 = Some [1, 2, 3, 5])"
  by (rule FLT_IFLT_inverse [where m = 2]) (simp_all add: zero_tables_def)

section \<open>The tables of \<^verbatim>\<open>init\<close>\<close>

subsection \<open>The state sequence of the first loop\<close>

lemma top_bit_test: "drop_bit 15 (s :: 16 word) \<noteq> 0 \<longleftrightarrow> bit s 15"
proof -
  have "unat (drop_bit 15 s) = drop_bit 15 (unat s)"
    by (rule unat_drop_bit_eq)
  then have u: "unat (drop_bit 15 s) = unat s div 2 ^ 15"
    by (simp only: drop_bit_eq_div)
  have "unat s < 2 * 2 ^ 15" using unat16_less [of s] by simp
  then have lt: "unat s div 2 ^ 15 < 2" by (rule less_mult_imp_div_less)
  have "bit s 15 \<longleftrightarrow> bit (unat s) 15"
    by (simp add: bit_unsigned_iff)
  then have b: "bit s 15 \<longleftrightarrow> odd (unat s div 2 ^ 15)"
    by (simp only: bit_iff_odd)
  have "drop_bit 15 s \<noteq> 0 \<longleftrightarrow> unat (drop_bit 15 s) \<noteq> 0"
    by (simp add: unat_eq_0)
  also have "\<dots> \<longleftrightarrow> odd (unat s div 2 ^ 15)"
    unfolding u using lt by (cases "unat s div 2 ^ 15 = 0") (auto simp: less_2_cases_iff)
  finally show ?thesis using b by simp
qed

lemma push_bit_mask_drop: "push_bit n (s AND mask (16 - n)) = push_bit n (s :: 16 word)"
  by (rule bit_word_eqI) (auto simp: bit_simps)

lemma next_state_alt: "next_state s = push_bit 1 s XOR (if bit s 15 then mask_c else 0)"
proof -
  have "mas = mask 15" by (simp add: mas_def mask_eq_exp_minus_1)
  then have "push_bit 1 (s AND mas) = push_bit 1 s" using push_bit_mask_drop [of 1 s] by simp
  then show ?thesis unfolding next_state_def using top_bit_test [of s] by simp
qed

lemma next_state_xor: "next_state (a XOR b) = next_state a XOR next_state b"
  unfolding next_state_alt
  by (simp add: bit_xor_iff ac_simps del: push_bit_of_Suc_0)
    
lemma next_state_0: "next_state 0 = 0"
  by (simp add: next_state_alt)

lemma funpow_next_state_xor:
  "(next_state ^^ n) (a XOR b) = (next_state ^^ n) a XOR (next_state ^^ n) b"
  by (induction n) (simp_all add: next_state_xor)

lemma funpow_next_state_0: "(next_state ^^ n) 0 = 0"
  by (induction n) (simp_all add: next_state_0)

lemma lincomb_xor: "lincomb k vs (a XOR b) = lincomb k vs a XOR lincomb k vs b"
  by (induction vs arbitrary: k) (simp_all add: bit_xor_iff ac_simps)

lemma lincomb_map:
  assumes "\<And>a b. f (a XOR b) = f a XOR f b" and "f 0 = 0"
  shows "f (lincomb k vs x) = lincomb k (map f vs) x"
  by (induction vs arbitrary: k) (simp_all add: assms)

lemma bit_push_drop:
  "bit (push_bit m (drop_bit m (x :: GFSymbol))) n \<longleftrightarrow> m \<le> n \<and> bit x n"
  by (auto simp: bit_push_bit_iff bit_drop_bit_eq dest: bit_imp_le_length)

lemma lincomb_units_from:
  "k \<le> 16 \<Longrightarrow> lincomb k (map (\<lambda>i. 2 ^ i) [k..<16]) x = push_bit k (drop_bit k x)"
proof (induction "16 - k" arbitrary: k)
  case 0
  then have "k = 16" by simp
  then show ?case by simp
next
  case (Suc d)
  then have k: "k < 16" by simp
  have ih: "lincomb (Suc k) (map (\<lambda>i. 2 ^ i) [Suc k..<16]) x = push_bit (Suc k) (drop_bit (Suc k) x)"
    by (rule Suc.hyps(1)) (use Suc.hyps(2) k in simp_all)
  have "(if bit x k then 2 ^ k else 0) XOR push_bit (Suc k) (drop_bit (Suc k) x)
      = push_bit k (drop_bit k x)"
  proof (rule bit_word_eqI)
    fix n assume "n < LENGTH(16)"
    then have n: "n < 16" by simp
    have e: "bit ((2::GFSymbol) ^ k) n \<longleftrightarrow> n = k" using n k by (auto simp: bit_exp_iff)
    show "bit ((if bit x k then 2 ^ k else 0) XOR push_bit (Suc k) (drop_bit (Suc k) x)) n
        = bit (push_bit k (drop_bit k x)) n"
      unfolding bit_xor_iff bit_push_drop using e by (cases "n = k") auto
  qed
  then show ?case using k ih by (simp add: upt_conv_Cons del: push_bit_Suc)
qed

lemma lincomb_units: "lincomb 0 (map (\<lambda>i. 2 ^ i) [0..<16]) x = x"
  using lincomb_units_from [of 0 x] by simp


lemma state_at_0 [simp]: "state_at 0 = 1"
  by (simp add: state_at_def)

lemma state_at_Suc: "state_at (Suc n) = next_state (state_at n)"
  by (simp add: state_at_def)

lemma state_at_add: "state_at (m + n) = (next_state ^^ m) (state_at n)"
  by (simp add: state_at_def funpow_add)

lemma state_at_small: "i < 16 \<Longrightarrow> state_at i = 2 ^ i"
proof (induction i)
  case 0
  then show ?case by simp
next
  case (Suc i)
  then have "\<not> bit ((2::GFSymbol) ^ i) 15" by (simp add: bit_exp_iff)
  then show ?case using Suc by (simp add: state_at_Suc next_state_alt)
qed

lemma gmul_from_lincomb:
  "gmul_from k n a b = lincomb k (map (\<lambda>i. (next_state ^^ i) a) [0..<n]) b"
proof (induction n arbitrary: k a)
  case 0
  then show ?case by simp
next
  case (Suc n)
  have "map (\<lambda>i. (next_state ^^ i) a) [0..<Suc n]
      = a # map (\<lambda>i. (next_state ^^ i) (next_state a)) [0..<n]"
    by (simp add: upt_conv_Cons map_Suc_upt [symmetric] funpow_swap1 del: upt_Suc)
  then show ?case using Suc.IH [of "Suc k" "next_state a"] by simp
qed

lemma funpow_comm: "(f ^^ m) ((f ^^ n) a) = (f ^^ n) ((f ^^ m) a)"
proof -
  have "(f ^^ m) ((f ^^ n) a) = (f ^^ (m + n)) a" by (simp add: funpow_add)
  also have "\<dots> = (f ^^ (n + m)) a" by (simp add: add.commute)
  finally show ?thesis by (simp add: funpow_add)
qed

lemma state_at_gmul: "state_at (m + n) = gmul (state_at m) (state_at n)"
proof -
  have u: "map (\<lambda>i. 2 ^ i) [0..<16] = map state_at [0..<16]"
    by (rule map_cong) (simp_all add: state_at_small)
  have "state_at n = lincomb 0 (map state_at [0..<16]) (state_at n)"
    using lincomb_units [of "state_at n"] by (simp only: u)
  then have "state_at (m + n) = (next_state ^^ m) (lincomb 0 (map state_at [0..<16]) (state_at n))"
    by (simp only: state_at_add)
  also have "\<dots> = lincomb 0 (map (next_state ^^ m) (map state_at [0..<16])) (state_at n)"
    by (rule lincomb_map) (simp_all add: funpow_next_state_xor funpow_next_state_0)
  also have "map (next_state ^^ m) (map state_at [0..<16])
      = map (\<lambda>i. (next_state ^^ i) (state_at m)) [0..<16]"
    by (simp add: state_at_def funpow_comm)
  finally show ?thesis by (simp only: gmul_def gmul_from_lincomb)
qed

lemma state_at_gpow: "state_at n = gpow n"
proof (induction n rule: gpow.induct)
  case (1 n)
  show ?case
  proof (cases "n = 0")
    case True
    then show ?thesis by (simp add: gpow.simps)
  next
    case False
    show ?thesis
    proof (cases "even n")
      case True
      then have "n = n div 2 + n div 2" by auto
      then have "state_at n = gmul (state_at (n div 2)) (state_at (n div 2))"
        using state_at_gmul [of "n div 2" "n div 2"] by simp
      then show ?thesis using 1(1) [OF False True] False True
        by (subst gpow.simps) (simp add: gsq_def)
    next
      case odd: False
      have "state_at 1 = 2" using state_at_small [of 1] by simp
      moreover have "n = 1 + (n - 1)" using False by simp
      ultimately have "state_at n = gmul 2 (state_at (n - 1))"
        using state_at_gmul [of 1 "n - 1"] by simp
      then show ?thesis using 1(2) [OF False odd] False odd
        by (subst gpow.simps) simp
    qed
  qed
qed

lemma gmul_from_unfold:
  "gmul_from k n a b =
    (if n = 0 then 0 else (if bit b k then a else 0) XOR gmul_from (k + 1) (n - 1) (next_state a) b)"
  by (cases n) simp_all

lemma gpow_values:
  "gpow 65535 = 1" "gpow 21845 = 44234" "gpow 13107 = 34554" "gpow 3855 = 44212" "gpow 255 = 197"
  by (simp_all add: gpow.simps gsq_def gmul_def gmul_from_unfold next_state_def mas_def mask_c_def)


lemma state_at_values:
  "state_at 65535 = 1" "state_at 21845 \<noteq> 1" "state_at 13107 \<noteq> 1" "state_at 3855 \<noteq> 1"
  "state_at 255 \<noteq> 1"
  by (simp_all add: state_at_gpow gpow_values)

lemma state_at_mult: "state_at g = 1 \<Longrightarrow> state_at (q * g) = 1"
proof (induction q)
  case 0
  then show ?case by simp
next
  case (Suc q)
  then have "state_at (g + q * g) = (next_state ^^ g) 1" by (simp only: state_at_add)
  then show ?case using Suc.prems by (simp add: state_at_def)
qed

lemma state_at_mod:
  assumes "state_at b = 1"
  shows "state_at (a mod b) = state_at a"
proof -
  have "state_at (a mod b + a div b * b) = (next_state ^^ (a mod b)) (state_at (a div b * b))"
    by (rule state_at_add)
  then show ?thesis using state_at_mult [OF assms, of "a div b"] by (simp add: state_at_def)
qed

lemma state_at_gcd: "state_at a = 1 \<Longrightarrow> state_at b = 1 \<Longrightarrow> state_at (gcd a b) = 1"
proof (induction a b rule: gcd_nat_induct)
  case (step m n)
  have "state_at (m mod n) = 1" using state_at_mod [OF step.prems(2), of m] step.prems(1) by simp
  then have "state_at (gcd n (m mod n)) = 1" using step.IH step.prems(2) by simp
  then show ?case by (simp add: gcd_red_nat [symmetric] gcd.commute)
qed simp

lemma small_divisor_257: "d < 17 \<Longrightarrow> d dvd (257::nat) \<Longrightarrow> d = 1"
proof -
  assume lt: "d < 17" and dv: "d dvd (257::nat)"
  from lt have "d = 0 \<or> d = 1 \<or> d = 2 \<or> d = 3 \<or> d = 4 \<or> d = 5 \<or> d = 6 \<or> d = 7 \<or> d = 8
      \<or> d = 9 \<or> d = 10 \<or> d = 11 \<or> d = 12 \<or> d = 13 \<or> d = 14 \<or> d = 15 \<or> d = 16"
    by arith
  then show "d = 1" using dv by auto
qed

lemma divisors_257:
  assumes "d dvd (257::nat)"
  shows "d = 1 \<or> d = 257"
proof -
  from assms obtain e where e: "257 = d * e" by (auto simp: dvd_def)
  have "d < 17 \<or> e < 17"
  proof (rule ccontr)
    assume "\<not> (d < 17 \<or> e < 17)"
    then have "17 * 17 \<le> d * e" by (intro mult_le_mono) simp_all
    then show False using e by simp
  qed
  then show ?thesis
  proof
    assume "d < 17"
    then show ?thesis using small_divisor_257 assms by blast
  next
    assume "e < 17"
    moreover have "e dvd 257" by (metis dvd_triv_right e)
    ultimately have "e = 1" by (rule small_divisor_257)
    then show ?thesis using e by simp
  qed
qed

lemma divisors_small:
  "d dvd (3::nat) \<Longrightarrow> d = 1 \<or> d = 3" "d dvd (5::nat) \<Longrightarrow> d = 1 \<or> d = 5"
  "d dvd (17::nat) \<Longrightarrow> d = 1 \<or> d = 17"
proof -
  { assume dv: "d dvd (3::nat)"
    then have "d \<le> 3" by (rule dvd_imp_le) simp
    then have "d = 0 \<or> d = 1 \<or> d = 2 \<or> d = 3" by arith
    then have "d = 1 \<or> d = 3" using dv by auto }
  then show "d dvd (3::nat) \<Longrightarrow> d = 1 \<or> d = 3" .
  { assume dv: "d dvd (5::nat)"
    then have "d \<le> 5" by (rule dvd_imp_le) simp
    then have "d = 0 \<or> d = 1 \<or> d = 2 \<or> d = 3 \<or> d = 4 \<or> d = 5" by arith
    then have "d = 1 \<or> d = 5" using dv by auto }
  then show "d dvd (5::nat) \<Longrightarrow> d = 1 \<or> d = 5" .
  { assume dv: "d dvd (17::nat)"
    then have "d \<le> 17" by (rule dvd_imp_le) simp
    then have "d = 0 \<or> d = 1 \<or> d = 2 \<or> d = 3 \<or> d = 4 \<or> d = 5 \<or> d = 6 \<or> d = 7 \<or> d = 8
      \<or> d = 9 \<or> d = 10 \<or> d = 11 \<or> d = 12 \<or> d = 13 \<or> d = 14 \<or> d = 15 \<or> d = 16 \<or> d = 17"
      by arith
    then have "d = 1 \<or> d = 17" using dv by auto }
  then show "d dvd (17::nat) \<Longrightarrow> d = 1 \<or> d = 17" .
qed

lemma coprime_or_dvd:
  assumes "\<And>d. d dvd p \<Longrightarrow> d = 1 \<or> d = p"
  shows "coprime p q \<or> p dvd (q::nat)"
proof -
  have "gcd p q dvd p" by simp
  then have "gcd p q = 1 \<or> gcd p q = p" by (rule assms)
  then show ?thesis
  proof
    assume "gcd p q = 1" then show ?thesis by (simp add: coprime_iff_gcd_eq_1)
  next
    assume "gcd p q = p"
    then have "p dvd q" by (metis gcd_dvd2)
    then show ?thesis ..
  qed
qed

lemma proper_divisor_65535:
  assumes "g dvd (65535::nat)" and "g \<noteq> 65535"
  shows "g dvd 21845 \<or> g dvd 13107 \<or> g dvd 3855 \<or> g dvd 255"
proof -
  from assms(1) obtain q where q: "65535 = g * q" by (auto simp: dvd_def)
  have q1: "q \<noteq> 1" using q assms(2) by auto
  have step: "g dvd n" if "65535 = p * n" "p dvd q" "0 < p" for p n
  proof -
    from that(2) obtain q' where q': "q = p * q'" by (auto simp: dvd_def)
    have "p * n = g * (p * q')" using q that(1) by (simp only: q')
    also have "\<dots> = p * (g * q')" by (simp add: mult.left_commute)
    finally have "n = g * q'" using that(3) by simp
    then show ?thesis by simp
  qed
  consider "3 dvd q" | "5 dvd q" | "17 dvd q" | "257 dvd q"
    | "coprime 3 q" "coprime 5 q" "coprime 17 q" "coprime 257 q"
    using coprime_or_dvd [of 3 q] coprime_or_dvd [of 5 q] coprime_or_dvd [of 17 q]
      coprime_or_dvd [of 257 q] divisors_small divisors_257 by blast
  then show ?thesis
  proof cases
    case 1 then show ?thesis using step [of 3 21845] by simp
  next
    case 2 then show ?thesis using step [of 5 13107] by simp
  next
    case 3 then show ?thesis using step [of 17 3855] by simp
  next
    case 4 then show ?thesis using step [of 257 255] by simp
  next
    case 5
    then have "coprime (3 * (5 * (17 * 257))) q" by (simp only: coprime_mult_left_iff)
    then have "coprime 65535 q" by simp
    moreover have "q dvd 65535" by (metis dvd_triv_right q)
    ultimately have "q = 1" by (metis coprime_iff_gcd_eq_1 gcd_nat.absorb2)
    then show ?thesis using q1 by simp
  qed
qed

lemma state_at_distinct:
  assumes "i < j" and "j < MODULO"
  shows "state_at i \<noteq> state_at j"
proof
  assume eq: "state_at i = state_at j"
  let ?d = "j - i"
  have "state_at (MODULO - i + j) = (next_state ^^ (MODULO - i)) (state_at j)" by (rule state_at_add)
  also have "\<dots> = (next_state ^^ (MODULO - i)) (state_at i)" by (simp only: eq)
  also have "\<dots> = state_at (MODULO - i + i)" by (simp only: state_at_add)
  also have "\<dots> = 1" using assms state_at_values(1) by simp
  finally have "state_at (?d + MODULO) = 1" using assms by (simp add: add.commute)
  then have "(next_state ^^ ?d) (state_at MODULO) = 1" by (simp only: state_at_add)
  then have "(next_state ^^ ?d) 1 = 1" by (simp only: state_at_values(1))
  then have d1: "state_at ?d = 1" by (simp only: state_at_def)
  have g1: "state_at (gcd ?d MODULO) = 1" using state_at_gcd [OF d1 state_at_values(1)] .
  have "gcd ?d MODULO \<le> ?d" using assms(1) by (intro gcd_le1_nat) simp
  then have "gcd ?d MODULO \<noteq> MODULO" using assms by linarith
  then consider "gcd ?d MODULO dvd 21845" | "gcd ?d MODULO dvd 13107"
    | "gcd ?d MODULO dvd 3855" | "gcd ?d MODULO dvd 255"
    using proper_divisor_65535 [of "gcd ?d MODULO"] by auto
  then show False
  proof cases
    case 1
    then obtain q where "21845 = q * gcd ?d MODULO" by (auto simp: dvd_def mult.commute)
    then show False using state_at_mult [OF g1, of q] state_at_values(2) by simp
  next
    case 2
    then obtain q where "13107 = q * gcd ?d MODULO" by (auto simp: dvd_def mult.commute)
    then show False using state_at_mult [OF g1, of q] state_at_values(3) by simp
  next
    case 3
    then obtain q where "3855 = q * gcd ?d MODULO" by (auto simp: dvd_def mult.commute)
    then show False using state_at_mult [OF g1, of q] state_at_values(4) by simp
  next
    case 4
    then obtain q where "255 = q * gcd ?d MODULO" by (auto simp: dvd_def mult.commute)
    then show False using state_at_mult [OF g1, of q] state_at_values(5) by simp
  qed
qed

lemma state_at_nonzero: "state_at i \<noteq> 0"
proof
  assume z: "state_at i = 0"
  have le: "i \<le> Suc i * MODULO" by simp
  have "state_at (Suc i * MODULO) = 1" by (rule state_at_mult) (rule state_at_values(1))
  moreover have "state_at (Suc i * MODULO - i + i) = (next_state ^^ (Suc i * MODULO - i)) (state_at i)"
    by (rule state_at_add)
  ultimately have "(1::GFSymbol) = (next_state ^^ (Suc i * MODULO - i)) 0"
    using le by (simp only: z le_add_diff_inverse2)
  then show False by (simp add: funpow_next_state_0)
qed

lemma state_at_inj: "i < MODULO \<Longrightarrow> j < MODULO \<Longrightarrow> state_at i = state_at j \<Longrightarrow> i = j"
  using state_at_distinct [of i j] state_at_distinct [of j i] by (metis nat_neq_iff)

lemma state_at_surj:
  assumes "w \<noteq> 0"
  shows "\<exists>i<MODULO. state_at i = w"
proof -
  have inj: "inj_on state_at {..<MODULO}"
    by (rule inj_onI) (simp add: state_at_inj)
  have "card (UNIV :: GFSymbol set) = FIELD_SIZE" by (simp add: card_word)
  then have c: "card (UNIV - {0 :: GFSymbol}) = MODULO" by (simp add: card_Diff_singleton)
  have "state_at ` {..<MODULO} = UNIV - {0}"
  proof (rule card_subset_eq)
    show "finite (UNIV - {0 :: GFSymbol})" by simp
    show "state_at ` {..<MODULO} \<subseteq> UNIV - {0}" using state_at_nonzero by auto
    show "card (state_at ` {..<MODULO}) = card (UNIV - {0 :: GFSymbol})"
      using card_image [OF inj] c by simp
  qed
  then have "w \<in> state_at ` {..<MODULO}" using assms by simp
  then show ?thesis by auto
qed

subsection \<open>The first loop: the discrete logarithm table\<close>

lemma unat_of_nat16: "n < FIELD_SIZE \<Longrightarrow> unat (of_nat n :: GFSymbol) = n"
  by (simp add: unat_of_nat)

lemma init_exp_spec:
  assumes "length E = FIELD_SIZE"
  shows "\<exists>E1. init_exp E = Some E1 \<and> length E1 = FIELD_SIZE \<and> E1 ! 0 = of_nat MODULO
    \<and> (\<forall>i<MODULO. E1 ! unat (state_at i) = of_nat i)"
proof -
  let ?body = "\<lambda>i (E, state). do {
         E \<leftarrow> wr E (unat state) (of_nat i);
         Some (E, next_state state)
       }"
  let ?I = "\<lambda>i (E, s). s = state_at i \<and> length E = FIELD_SIZE
      \<and> (\<forall>k<i. E ! unat (state_at k) = (of_nat k :: GFSymbol))"
  have "\<exists>r. for_range 0 MODULO ?body (E, 1) = Some r \<and> ?I MODULO r"
  proof (rule for_range_total [where I = ?I])
    show "?I 0 (E, 1)" using assms by simp
    show "0 \<le> MODULO" by simp
  next
    fix j r assume j: "0 \<le> j" "j < MODULO" and I: "?I j r"
    obtain E' s where r: "r = (E', s)" by (cases r)
    have s: "s = state_at j" and l: "length E' = FIELD_SIZE"
      and old: "\<forall>k<j. E' ! unat (state_at k) = of_nat k" using I r by auto
    let ?E = "E'[unat (state_at j) := of_nat j]"
    have b: "?body j r = Some (?E, state_at (Suc j))"
      using l by (simp add: r s state_at_Suc)
    have "\<forall>k<Suc j. ?E ! unat (state_at k) = of_nat k"
    proof (intro allI impI)
      fix k assume "k < Suc j"
      then consider "k < j" | "k = j" by linarith
      then show "?E ! unat (state_at k) = of_nat k"
      proof cases
        case 1
        then have "state_at k \<noteq> state_at j" using state_at_distinct [of k j] j by simp
        then have "unat (state_at k) \<noteq> unat (state_at j)" by (simp add: word_unat_eq_iff)
        then show ?thesis using old 1 by simp
      next
        case 2
        then show ?thesis using l by simp
      qed
    qed
    then have "?I (Suc j) (?E, state_at (Suc j))" using l by simp
    then show "\<exists>s'. ?body j r = Some s' \<and> ?I (Suc j) s'" using b by blast
  qed
  then obtain E' s where loop: "for_range 0 MODULO ?body (E, 1) = Some (E', s)"
    and l: "length E' = FIELD_SIZE" and tab: "\<forall>k<MODULO. E' ! unat (state_at k) = of_nat k"
    by auto
  have "init_exp E = Some (E'[0 := of_nat MODULO])"
    unfolding init_exp_def using loop l by simp
  moreover have "\<forall>i<MODULO. (E'[0 := of_nat MODULO]) ! unat (state_at i) = of_nat i"
  proof (intro allI impI)
    fix i assume i: "i < MODULO"
    have "unat (state_at i) \<noteq> 0" using state_at_nonzero [of i] by (simp add: unat_eq_0)
    then show "(E'[0 := of_nat MODULO]) ! unat (state_at i) = of_nat i" using tab i by simp
  qed
  ultimately show ?thesis using l by simp
qed

text \<open>The table of the first loop is injective: it sends 0 to the sentinel \<open>MODULO\<close> and
  the \<open>i\<close>-th state to \<open>i < MODULO\<close>.\<close>

lemma dlog_table_sentinel:
  assumes "E1 ! 0 = (of_nat MODULO :: GFSymbol)"
    and "\<forall>i<MODULO. E1 ! unat (state_at i) = of_nat i"
  shows "unat (E1 ! unat (w :: GFSymbol)) = MODULO \<longleftrightarrow> w = 0"
proof (cases "w = 0")
  case True
  then show ?thesis using assms(1) by (simp add: unat_of_nat16)
next
  case False
  then obtain i where i: "i < MODULO" "state_at i = w" using state_at_surj by blast
  then have "unat (E1 ! unat w) = i" using assms(2) by (auto simp: unat_of_nat16)
  then show ?thesis using False i by simp
qed

lemma dlog_table_inj:
  assumes "E1 ! 0 = (of_nat MODULO :: GFSymbol)"
    and "\<forall>i<MODULO. E1 ! unat (state_at i) = of_nat i"
    and "E1 ! unat (u :: GFSymbol) = E1 ! unat (v :: GFSymbol)"
  shows "u = v"
proof (cases "u = 0")
  case True
  then have "unat (E1 ! unat v) = MODULO" using assms(1,3) by (simp add: unat_of_nat16)
  then show ?thesis using dlog_table_sentinel [OF assms(1,2)] True by simp
next
  case False
  then have "unat (E1 ! unat u) \<noteq> MODULO" using dlog_table_sentinel [OF assms(1,2)] by simp
  then have "v \<noteq> 0" using dlog_table_sentinel [OF assms(1,2), of v] assms(3) by auto
  from False obtain i where i: "i < MODULO" "state_at i = u" using state_at_surj by blast
  from \<open>v \<noteq> 0\<close> obtain j where j: "j < MODULO" "state_at j = v" using state_at_surj by blast
  have "(of_nat i :: GFSymbol) = of_nat j" using assms(2,3) i j by auto
  then have "unat (of_nat i :: GFSymbol) = unat (of_nat j :: GFSymbol)" by simp
  then have "i = j" using i(1) j(1) by (simp add: unat_of_nat16)
  then show ?thesis using i j by simp
qed

subsection \<open>The second loop: the change of basis\<close>

lemma lincomb_zero [simp]: "lincomb k vs 0 = 0"
  by (induction vs arbitrary: k) simp_all

lemma lincomb_exp:
  "i < 16 \<Longrightarrow> lincomb k vs (2 ^ i) = (if k \<le> i \<and> i < k + length vs then vs ! (i - k) else 0)"
proof (induction vs arbitrary: k)
  case Nil
  then show ?case by auto
next
  case (Cons v vs)
  have b: "bit ((2::GFSymbol) ^ i) k \<longleftrightarrow> i = k" using Cons.prems by (auto simp: bit_exp_iff)
  show ?case
  proof (cases "i = k")
    case True
    then show ?thesis using Cons.IH [of "Suc k"] Cons.prems b by simp
  next
    case False
    then show ?thesis using Cons.IH [of "Suc k"] Cons.prems b
      by (auto simp: Suc_diff_le nth_Cons')
  qed
qed

lemma of_nat_add_exp:
  assumes "j < 2 ^ i"
  shows "(of_nat (j + 2 ^ i) :: GFSymbol) = of_nat j XOR 2 ^ i"
proof -
  have nb: "\<not> bit j i" using assms by (simp add: bit_iff_odd)
  have "j AND 2 ^ i = 0"
    by (rule bit_eqI) (use nb in \<open>auto simp: bit_and_iff bit_exp_iff\<close>)
  then have "j + 2 ^ i = j XOR 2 ^ i" by (rule disjunctive_add_eq_xor)
  then show ?thesis by (simp add: of_nat_xor_eq)
qed

lemma cantor_0 [simp]: "cantor 0 = 0"
  by (simp add: cantor_def)

lemma length_Base: "length Base = 16"
  by (simp add: Base_def)

lemma cantor_step:
  assumes "i < 16" and "j < 2 ^ i"
  shows "cantor (j + 2 ^ i) = cantor j XOR Base ! i"
proof -
  have "lincomb 0 Base (2 ^ i) = (if 0 \<le> i \<and> i < 0 + length Base then Base ! (i - 0) else 0)"
    by (rule lincomb_exp [OF assms(1)])
  then have "lincomb 0 Base (2 ^ i) = Base ! i" using assms(1) length_Base by simp
  then show ?thesis by (simp only: cantor_def of_nat_add_exp [OF assms(2)] lincomb_xor)
qed

lemma init_log_basis_spec:
  assumes "length L = FIELD_SIZE"
  shows "\<exists>L1. init_log_basis L = Some L1 \<and> length L1 = FIELD_SIZE
    \<and> (\<forall>x<FIELD_SIZE. L1 ! x = cantor x)"
proof -
  let ?inner = "\<lambda>i j L. do {
         v \<leftarrow> rd L j;
         b \<leftarrow> rd Base i;
         wr L (j + 2 ^ i) (v XOR b)
       }"
  let ?I = "\<lambda>i L. length L = FIELD_SIZE \<and> (\<forall>x<2 ^ i. L ! x = cantor x)"
  have "\<exists>L1. for_range 0 FIELD_BITS (\<lambda>i. for_range 0 (2 ^ i) (?inner i)) (L[0 := 0]) = Some L1
      \<and> ?I FIELD_BITS L1"
  proof (rule for_range_total [where I = ?I])
    show "?I 0 (L[0 := 0])" using assms by simp
    show "0 \<le> FIELD_BITS" by simp
  next
    fix i and L0 :: "GFSymbol list" assume i: "0 \<le> i" "i < FIELD_BITS" and I: "?I i L0"
    let ?J = "\<lambda>j L. length L = FIELD_SIZE \<and> (\<forall>x<2 ^ i + j. L ! x = cantor x)"
    have p: "(2::nat) ^ Suc i \<le> 2 ^ 16" using i by (intro power_increasing) simp_all
    have "\<exists>L'. for_range 0 (2 ^ i) (?inner i) L0 = Some L' \<and> ?J (2 ^ i) L'"
    proof (rule for_range_total [where I = ?J])
      show "?J 0 L0" using I by simp
      show "0 \<le> (2::nat) ^ i" by simp
    next
      fix j and L1 :: "GFSymbol list" assume j: "0 \<le> j" "j < 2 ^ i" and J: "?J j L1"
      have r: "j + 2 ^ i < FIELD_SIZE" using j p by simp
      have lj: "L1 ! j = cantor j" using J j by simp
      have b: "?inner i j L1 = Some (L1[j + 2 ^ i := cantor (j + 2 ^ i)])"
        using J r i j by (simp add: cantor_step lj length_Base)
      have "?J (Suc j) (L1[j + 2 ^ i := cantor (j + 2 ^ i)])"
        using J r by (auto simp: nth_list_update add.commute less_Suc_eq)
      then show "\<exists>s'. ?inner i j L1 = Some s' \<and> ?J (Suc j) s'" using b by simp
    qed
    then show "\<exists>s'. for_range 0 (2 ^ i) (?inner i) L0 = Some s' \<and> ?I (Suc i) s'"
      by (auto simp: mult_2)
  qed
  then show ?thesis using assms by (simp add: init_log_basis_def)
qed

lemma lincomb_unfold:
  "lincomb k (v # vs) x = (if bit x k then v else 0) XOR lincomb (k + 1) vs x"
  by simp

lemma units_16:
  "map (\<lambda>i. 2 ^ i) [0..<16] = [1, 2, 4, 8, 16, 32, 64, 128, 256, 512, 1024, 2048, 4096, 8192,
     16384, 32768 :: GFSymbol]"
  by (simp add: upt_conv_Cons)

lemma lincomb_Base_inv: "map (lincomb 0 Base_inv) Base = map (\<lambda>i. 2 ^ i) [0..<16]"
  unfolding units_16
  by (simp add: Base_def Base_inv_def lincomb_unfold del: lincomb.simps(2))

lemma cantor_decode: "lincomb 0 Base_inv (lincomb 0 Base w) = w"
proof -
  have "lincomb 0 Base_inv (lincomb 0 Base w) = lincomb 0 (map (lincomb 0 Base_inv) Base) w"
    by (rule lincomb_map) (simp_all add: lincomb_xor)
  then show ?thesis by (simp only: lincomb_Base_inv lincomb_units)
qed

lemma cantor_inj:
  assumes "x < FIELD_SIZE" and "y < FIELD_SIZE" and "cantor x = cantor y"
  shows "x = y"
proof -
  have "(of_nat x :: GFSymbol) = lincomb 0 Base_inv (cantor x)"
    by (simp only: cantor_def cantor_decode)
  also have "\<dots> = lincomb 0 Base_inv (cantor y)" by (simp only: assms(3))
  also have "\<dots> = of_nat y" by (simp only: cantor_def cantor_decode)
  finally have "(of_nat x :: GFSymbol) = of_nat y" .
  then have "unat (of_nat x :: GFSymbol) = unat (of_nat y :: GFSymbol)" by simp
  then show ?thesis using assms(1,2) by (simp add: unat_of_nat16)
qed

lemma cantor_1: "cantor 1 = 1"
  by (simp add: cantor_def Base_def lincomb_unfold del: lincomb.simps(2))

subsection \<open>The last two loops and \<^verbatim>\<open>init\<close> as a whole\<close>

lemma init_log_spec:
  assumes "length L1 = FIELD_SIZE" and "length E1 = FIELD_SIZE"
  shows "\<exists>L2. init_log E1 L1 = Some L2 \<and> length L2 = FIELD_SIZE
    \<and> (\<forall>x<FIELD_SIZE. L2 ! x = E1 ! unat (L1 ! x))"
proof -
  let ?body = "\<lambda>i L. do {
       v \<leftarrow> rd L i;
       e \<leftarrow> rd E1 (unat v);
       wr L i e
     }"
  let ?I = "\<lambda>i L. length L = FIELD_SIZE \<and> (\<forall>x<FIELD_SIZE. L ! x = (if x < i then E1 ! unat (L1 ! x) else L1 ! x))"
  have "\<exists>L2. for_range 0 FIELD_SIZE ?body L1 = Some L2 \<and> ?I FIELD_SIZE L2"
  proof (rule for_range_total [where I = ?I])
    show "?I 0 L1" using assms by simp
    show "0 \<le> FIELD_SIZE" by simp
  next
    fix j and L :: "GFSymbol list" assume j: "0 \<le> j" "j < FIELD_SIZE" and I: "?I j L"
    have lj: "L ! j = L1 ! j" using I j by simp
    have b: "?body j L = Some (L[j := E1 ! unat (L1 ! j)])"
      using I j assms(2) by (simp add: lj)
    have "?I (Suc j) (L[j := E1 ! unat (L1 ! j)])"
      using I j by (auto simp: nth_list_update less_Suc_eq)
    then show "\<exists>s'. ?body j L = Some s' \<and> ?I (Suc j) s'" using b by simp
  qed
  then show ?thesis by (auto simp: init_log_def)
qed

lemma init_inv_spec:
  assumes "length L2 = FIELD_SIZE" and "length E = FIELD_SIZE"
    and inj: "\<And>x y. x < FIELD_SIZE \<Longrightarrow> y < FIELD_SIZE \<Longrightarrow> L2 ! x = L2 ! y \<Longrightarrow> x = y"
  shows "\<exists>E2. init_inv L2 E = Some E2 \<and> length E2 = FIELD_SIZE
    \<and> (\<forall>x<FIELD_SIZE. E2 ! unat (L2 ! x) = of_nat x)"
proof -
  let ?body = "\<lambda>i E. do {
       v \<leftarrow> rd L2 i;
       wr E (unat v) (of_nat i)
     }"
  let ?I = "\<lambda>i E. length E = FIELD_SIZE \<and> (\<forall>x<i. E ! unat (L2 ! x) = (of_nat x :: GFSymbol))"
  have "\<exists>E2. for_range 0 FIELD_SIZE ?body E = Some E2 \<and> ?I FIELD_SIZE E2"
  proof (rule for_range_total [where I = ?I])
    show "?I 0 E" using assms by simp
    show "0 \<le> FIELD_SIZE" by simp
  next
    fix j and E' :: "GFSymbol list" assume j: "0 \<le> j" "j < FIELD_SIZE" and I: "?I j E'"
    have b: "?body j E' = Some (E'[unat (L2 ! j) := of_nat j])"
      using I j assms(1) by simp
    have "\<forall>x<Suc j. (E'[unat (L2 ! j) := of_nat j]) ! unat (L2 ! x) = of_nat x"
    proof (intro allI impI)
      fix x assume "x < Suc j"
      then consider "x < j" | "x = j" by linarith
      then show "(E'[unat (L2 ! j) := of_nat j]) ! unat (L2 ! x) = of_nat x"
      proof cases
        case 1
        then have "L2 ! x \<noteq> L2 ! j" using inj [of x j] j by auto
        then have "unat (L2 ! x) \<noteq> unat (L2 ! j)" by (simp add: word_unat_eq_iff)
        then show ?thesis using I 1 by simp
      next
        case 2
        then show ?thesis using I by simp
      qed
    qed
    then have "?I (Suc j) (E'[unat (L2 ! j) := of_nat j])" using I by simp
    then show "\<exists>s'. ?body j E' = Some s' \<and> ?I (Suc j) s'" using b by blast
  qed
  then show ?thesis by (auto simp: init_inv_def)
qed

lemma init_spec:
  assumes "length (LOG_TABLE t) = FIELD_SIZE" and "length (EXP_TABLE t) = FIELD_SIZE"
  shows "\<exists>t'. init t = Some t'
    \<and> length (LOG_TABLE t') = FIELD_SIZE \<and> length (EXP_TABLE t') = FIELD_SIZE
    \<and> skewVec t' = skewVec t \<and> B t' = B t \<and> log_walsh t' = log_walsh t
    \<and> LOG_TABLE t' ! 0 = of_nat MODULO
    \<and> LOG_TABLE t' ! 1 = 0
    \<and> (\<forall>x<FIELD_SIZE. 0 < x \<longrightarrow> unat (LOG_TABLE t' ! x) < MODULO)
    \<and> (\<forall>x<FIELD_SIZE. 0 < x \<longrightarrow> EXP_TABLE t' ! unat (LOG_TABLE t' ! x) = of_nat x)
    \<and> EXP_TABLE t' ! MODULO = EXP_TABLE t' ! 0
    \<and> (\<forall>x<FIELD_SIZE. \<forall>y<FIELD_SIZE. LOG_TABLE t' ! x = LOG_TABLE t' ! y \<longrightarrow> x = y)"
proof -
  from init_exp_spec [OF assms(2)] obtain E1 where e1: "init_exp (EXP_TABLE t) = Some E1"
    and lE1: "length E1 = FIELD_SIZE" and E10: "E1 ! 0 = of_nat MODULO"
    and E1s: "\<forall>i<MODULO. E1 ! unat (state_at i) = of_nat i" by blast
  from init_log_basis_spec [OF assms(1)] obtain L1 where l1: "init_log_basis (LOG_TABLE t) = Some L1"
    and lL1: "length L1 = FIELD_SIZE" and L1c: "\<forall>x<FIELD_SIZE. L1 ! x = cantor x" by blast
  from init_log_spec [OF lL1 lE1] obtain L2 where l2: "init_log E1 L1 = Some L2"
    and lL2: "length L2 = FIELD_SIZE" and L2v: "\<forall>x<FIELD_SIZE. L2 ! x = E1 ! unat (L1 ! x)" by blast
  have L2c: "L2 ! x = E1 ! unat (cantor x)" if "x < FIELD_SIZE" for x
    using L2v L1c that by simp
  have inj: "x = y" if "x < FIELD_SIZE" "y < FIELD_SIZE" "L2 ! x = L2 ! y" for x y
  proof -
    have "E1 ! unat (cantor x) = E1 ! unat (cantor y)" using that L2c by simp
    then have "cantor x = cantor y" by (rule dlog_table_inj [OF E10 E1s])
    then show ?thesis using that(1,2) by (rule cantor_inj [rotated 2])
  qed
  from init_inv_spec [OF lL2 lE1 inj] obtain E2 where e2: "init_inv L2 E1 = Some E2"
    and lE2: "length E2 = FIELD_SIZE" and E2v: "\<forall>x<FIELD_SIZE. E2 ! unat (L2 ! x) = of_nat x"
    by blast
  let ?E3 = "E2[MODULO := E2 ! 0]"
  let ?t' = "t\<lparr>LOG_TABLE := L2, EXP_TABLE := ?E3\<rparr>"
  have run: "init t = Some ?t'"
    unfolding init_def using e1 l1 l2 e2 lE2 by simp
  have L20: "L2 ! 0 = of_nat MODULO" using L2c [of 0] E10 by simp
  have L21: "L2 ! 1 = 0"
  proof -
    have "L2 ! 1 = E1 ! unat (cantor 1)" by (rule L2c) simp
    then have "L2 ! 1 = E1 ! unat (state_at 0)" by (simp only: cantor_1 state_at_0)
    moreover have "(0::nat) < MODULO" by simp
    then have "E1 ! unat (state_at 0) = of_nat 0" using E1s by blast
    ultimately show ?thesis by simp
  qed
  have small: "unat (L2 ! x) < MODULO" if "x < FIELD_SIZE" "0 < x" for x
  proof -
    have "cantor x \<noteq> 0" using cantor_inj [of x 0] that by auto
    then have "unat (E1 ! unat (cantor x)) \<noteq> MODULO"
      using dlog_table_sentinel [OF E10 E1s] by simp
    moreover have "unat (E1 ! unat (cantor x)) \<le> MODULO" by simp
    ultimately have "unat (E1 ! unat (cantor x)) < MODULO" by linarith
    then show ?thesis by (simp only: L2c [OF that(1)])
  qed
  have rt: "?E3 ! unat (L2 ! x) = of_nat x" if "x < FIELD_SIZE" "0 < x" for x
    using small [OF that] E2v that(1) by simp
  have last: "?E3 ! MODULO = ?E3 ! 0" using lE2 by simp
  show ?thesis
    using run lL2 lE2 L20 L21 small rt last inj by (intro exI [of _ ?t']) simp
qed

text \<open>
  C6.  Started on tables of the declared size, \<^verbatim>\<open>init\<close> returns, and in the tables it
  leaves \<^verbatim>\<open>EXP_TABLE[LOG_TABLE[x]] == x\<close> for every nonzero 16-bit \<open>x\<close>.
\<close>

theorem init_exp_log_inverse:
  assumes "length (LOG_TABLE t) = FIELD_SIZE" and "length (EXP_TABLE t) = FIELD_SIZE"
  shows "\<exists>t'. init t = Some t'
    \<and> (\<forall>x :: GFSymbol. x \<noteq> 0 \<longrightarrow> EXP_TABLE t' ! unat (LOG_TABLE t' ! unat x) = x)"
proof -
  from init_spec [OF assms] obtain t' where run: "init t = Some t'"
    and rt: "\<forall>x<FIELD_SIZE. 0 < x \<longrightarrow> EXP_TABLE t' ! unat (LOG_TABLE t' ! x) = of_nat x"
    by blast
  have "EXP_TABLE t' ! unat (LOG_TABLE t' ! unat x) = x" if "x \<noteq> 0" for x :: GFSymbol
  proof -
    have "0 < unat x" using that by (simp add: unat_gt_0)
    then have "EXP_TABLE t' ! unat (LOG_TABLE t' ! unat x) = of_nat (unat x)"
      using rt by simp
    then show ?thesis by simp
  qed
  then show ?thesis using run by blast
qed

theorem init_exp_log_inverse_witness:
  "\<exists>t'. init zero_tables = Some t'
    \<and> (\<forall>x :: GFSymbol. x \<noteq> 0 \<longrightarrow> EXP_TABLE t' ! unat (LOG_TABLE t' ! unat x) = x)"
  by (rule init_exp_log_inverse) (simp_all add: zero_tables_def)

section \<open>The field multiply on the tables of \<^verbatim>\<open>init\<close>\<close>

lemma fold_reduce_cases:
  assumes "x < 2 * MODULO"
  shows "fold_reduce x = (if x = MODULO then MODULO else x mod MODULO)"
proof -
  consider "x < MODULO" | "x = MODULO" | "FIELD_SIZE \<le> x" by linarith
  then show ?thesis
  proof cases
    case 1
    then show ?thesis by (simp add: fold_reduce_alt)
  next
    case 2
    then show ?thesis by (simp add: fold_reduce_alt)
  next
    case 3
    then have d: "x div FIELD_SIZE = 1" using assms by simp
    have m: "x mod FIELD_SIZE = x - FIELD_SIZE" using 3 assms by (simp add: mod_if)
    have "x mod MODULO = (x - MODULO) mod MODULO" using 3 by (simp add: le_mod_geq)
    also have "\<dots> = x - MODULO" using assms by simp
    finally show ?thesis using 3 d m by (simp add: fold_reduce_alt)
  qed
qed

lemma mulE_after_init:
  assumes "length (LOG_TABLE t) = FIELD_SIZE" and "length (EXP_TABLE t) = FIELD_SIZE"
    and "\<forall>x<FIELD_SIZE. 0 < x \<longrightarrow> unat (LOG_TABLE t ! x) < MODULO"
    and "EXP_TABLE t ! MODULO = EXP_TABLE t ! 0"
  shows "mulE t a b = Some (if a = 0 then 0
      else EXP_TABLE t ! ((unat (LOG_TABLE t ! unat a) + unat b) mod MODULO))"
    and "a \<noteq> 0 \<Longrightarrow> unat (LOG_TABLE t ! unat a) + unat b < 2 * MODULO"
    and "a \<noteq> 0 \<Longrightarrow> fold_reduce (unat (LOG_TABLE t ! unat a) + unat b) < FIELD_SIZE"
    and "a \<noteq> 0 \<Longrightarrow> fold_reduce (unat (LOG_TABLE t ! unat a) + unat b)
      = (if unat (LOG_TABLE t ! unat a) + unat b = MODULO then MODULO
         else (unat (LOG_TABLE t ! unat a) + unat b) mod MODULO)"
proof -
  let ?x = "unat (LOG_TABLE t ! unat a) + unat b"
  have lt: "?x < 2 * MODULO" if "a \<noteq> 0"
  proof -
    have "0 < unat a" using that by (simp add: unat_gt_0)
    then have "unat (LOG_TABLE t ! unat a) < MODULO" using assms(3) by simp
    moreover have "unat b \<le> MODULO" by simp
    ultimately show ?thesis by linarith
  qed
  then show "a \<noteq> 0 \<Longrightarrow> ?x < 2 * MODULO" .
  show f: "a \<noteq> 0 \<Longrightarrow> fold_reduce ?x = (if ?x = MODULO then MODULO else ?x mod MODULO)"
    by (rule fold_reduce_cases) (rule lt)
  show "a \<noteq> 0 \<Longrightarrow> fold_reduce ?x < FIELD_SIZE"
  proof -
    assume "a \<noteq> 0"
    then have "fold_reduce ?x \<le> MODULO" using lt by (intro fold_reduce_le) simp
    then show ?thesis by simp
  qed
  show "mulE t a b = Some (if a = 0 then 0 else EXP_TABLE t ! (?x mod MODULO))"
  proof (cases "a = 0")
    case True
    then show ?thesis by (simp add: mulE_def)
  next
    case False
    have "EXP_TABLE t ! fold_reduce ?x = EXP_TABLE t ! (?x mod MODULO)"
      using f [OF False] assms(4) by (cases "?x = MODULO") simp_all
    then show ?thesis
      using False by (simp add: mulE_total [OF assms(1,2)] mulE_val_def)
  qed
qed

lemma init_zero_tables:
  "init zero_tables \<noteq> None"
  "LOG_TABLE (the (init zero_tables)) ! 1 = 0"
  "length (LOG_TABLE (the (init zero_tables))) = FIELD_SIZE"
  "length (EXP_TABLE (the (init zero_tables))) = FIELD_SIZE"
proof -
  have "length (LOG_TABLE zero_tables) = FIELD_SIZE" "length (EXP_TABLE zero_tables) = FIELD_SIZE"
    by (simp_all add: zero_tables_def)
  from init_spec [OF this] obtain t' where "init zero_tables = Some t'"
    "LOG_TABLE t' ! 1 = 0" "length (LOG_TABLE t') = FIELD_SIZE" "length (EXP_TABLE t') = FIELD_SIZE"
    by blast
  then show "init zero_tables \<noteq> None" "LOG_TABLE (the (init zero_tables)) ! 1 = 0"
    "length (LOG_TABLE (the (init zero_tables))) = FIELD_SIZE"
    "length (EXP_TABLE (the (init zero_tables))) = FIELD_SIZE"
    by simp_all
qed

text \<open>
  C5 as stated fails in one point: the fold is not the exact remainder.  On the tables
  \<^verbatim>\<open>init\<close> builds from the zeroed globals \<^verbatim>\<open>LOG_TABLE[1]\<close> is 0, so for \<open>a = 1\<close> and
  \<open>b = 65535\<close> the sum is \<open>MODULO\<close>; its remainder is 0, but the fold is \<open>MODULO\<close>, and
  \<^verbatim>\<open>mulE\<close> reads \<^verbatim>\<open>EXP_TABLE[65535]\<close>.
\<close>

theorem mulE_fold_not_exact_counterexample:
  "init zero_tables \<noteq> None
   \<and> unat (LOG_TABLE (the (init zero_tables)) ! unat (1 :: GFSymbol)) + unat (65535 :: GFSymbol) = MODULO
   \<and> MODULO mod MODULO = (0::nat)
   \<and> fold_reduce MODULO = MODULO
   \<and> mulE (the (init zero_tables)) 1 65535 = Some (EXP_TABLE (the (init zero_tables)) ! MODULO)"
  using init_zero_tables by (simp add: mulE_def fold_reduce_alt)

text \<open>
  C5, amended.  On the tables left by \<^verbatim>\<open>init\<close>, for every symbol \<open>a\<close> and every 16-bit
  \<open>b\<close>: \<^verbatim>\<open>mulE(a, b)\<close> returns 0 when \<open>a\<close> is 0 and otherwise the value of \<^verbatim>\<open>EXP_TABLE\<close> at
  index \<open>(LOG_TABLE[a] + b) mod MODULO\<close>; the sum stays under \<open>2 * MODULO\<close>, the index the
  code uses, the fold of the sum, is a valid table index and equals that remainder except
  when the sum is exactly \<open>MODULO\<close>, where it is \<open>MODULO\<close>, whose table entry \<^verbatim>\<open>init\<close> made
  equal to \<^verbatim>\<open>EXP_TABLE[0]\<close>.
\<close>

theorem mulE_value:
  assumes "length (LOG_TABLE t) = FIELD_SIZE" and "length (EXP_TABLE t) = FIELD_SIZE"
  shows "\<exists>t'. init t = Some t' \<and> EXP_TABLE t' ! MODULO = EXP_TABLE t' ! 0 \<and> (\<forall>a b.
      mulE t' a b = Some (if a = 0 then 0
         else EXP_TABLE t' ! ((unat (LOG_TABLE t' ! unat a) + unat b) mod MODULO))
      \<and> (a \<noteq> 0 \<longrightarrow>
           unat (LOG_TABLE t' ! unat a) + unat b < 2 * MODULO
         \<and> fold_reduce (unat (LOG_TABLE t' ! unat a) + unat b) < FIELD_SIZE
         \<and> fold_reduce (unat (LOG_TABLE t' ! unat a) + unat b)
            = (if unat (LOG_TABLE t' ! unat a) + unat b = MODULO then MODULO
               else (unat (LOG_TABLE t' ! unat a) + unat b) mod MODULO)))"
proof -
  from init_spec [OF assms] obtain t' where run: "init t = Some t'"
    and l: "length (LOG_TABLE t') = FIELD_SIZE" "length (EXP_TABLE t') = FIELD_SIZE"
    and s: "\<forall>x<FIELD_SIZE. 0 < x \<longrightarrow> unat (LOG_TABLE t' ! x) < MODULO"
    and e: "EXP_TABLE t' ! MODULO = EXP_TABLE t' ! 0"
    by blast
  show ?thesis
    using run e mulE_after_init [OF l s e] by (intro exI [of _ t']) simp
qed

theorem mulE_value_witness:
  "\<exists>t'. init zero_tables = Some t' \<and> EXP_TABLE t' ! MODULO = EXP_TABLE t' ! 0 \<and> (\<forall>a b.
      mulE t' a b = Some (if a = 0 then 0
         else EXP_TABLE t' ! ((unat (LOG_TABLE t' ! unat a) + unat b) mod MODULO))
      \<and> (a \<noteq> 0 \<longrightarrow>
           unat (LOG_TABLE t' ! unat a) + unat b < 2 * MODULO
         \<and> fold_reduce (unat (LOG_TABLE t' ! unat a) + unat b) < FIELD_SIZE
         \<and> fold_reduce (unat (LOG_TABLE t' ! unat a) + unat b)
            = (if unat (LOG_TABLE t' ! unat a) + unat b = MODULO then MODULO
               else (unat (LOG_TABLE t' ! unat a) + unat b) mod MODULO)))"
  by (rule mulE_value) (simp_all add: zero_tables_def)

section \<open>What \<^verbatim>\<open>walsh\<close> computes in position 0, and the sum of its output\<close>

lemma length_walsh_stages:
  "n \<le> m \<Longrightarrow> 2 ^ m \<le> length s \<Longrightarrow> length (walsh_stages m n s) = length s"
  by (induction n) (simp_all add: length_walsh_stage)

lemma walsh_upto:
  assumes "2 ^ m \<le> length s"
  shows "n \<le> m \<Longrightarrow>
    for_range 0 n (\<lambda>e. for_step 0 (2 ^ m) (2 * 2 ^ e)
        (\<lambda>j. for_range j (2 ^ e + j) (walsh_body (2 ^ e)))) s
      = Some (walsh_stages m n s)"
proof (induction n)
  case 0
  then show ?case by (simp add: for_range_stop)
next
  case (Suc n)
  then have n: "n < m" by simp
  have l: "2 ^ m \<le> length (walsh_stages m n s)"
    using length_walsh_stages [of n m s] n assms by simp
  show ?case
    using Suc.IH n by (simp add: for_range_snoc walsh_stage_eq [OF n l])
qed

lemma walsh_eq:
  assumes "2 ^ m \<le> length s"
  shows "walsh s (2 ^ m) = Some (walsh_stages m m s)"
  unfolding walsh_as_stages by (rule walsh_upto [OF assms]) simp

lemma nth_chunk: "Suc k * w \<le> length xs \<Longrightarrow> r < w \<Longrightarrow> chunk w k xs ! r = xs ! (k * w + r)"
  by (simp add: chunk_def)

lemma walsh_stage_chunk:
  assumes "e < m" and "2 ^ m \<le> length s" and "k < 2 ^ (m - e - 1)"
  shows "chunk (2 * 2 ^ e) k (walsh_stage m e s) = pairs wsum wdiff (2 ^ e) (chunk (2 * 2 ^ e) k s)"
  unfolding walsh_stage_def
  by (rule chunk_blocks) (use stage_KW [OF assms(1,2)] assms(3) in simp_all)

lemma uint_wsum: "uint (wsum a b) mod 65535 = (uint a + uint b) mod 65535"
proof -
  have "unat (wsum a b) mod MODULO = (unat a + unat b) mod MODULO"
    by (simp only: butterfly_range(2,5))
  then have "int (unat (wsum a b) mod MODULO) = int ((unat a + unat b) mod MODULO)"
    by (rule arg_cong)
  then have "int (unat (wsum a b)) mod int MODULO = (int (unat a) + int (unat b)) mod int MODULO"
    by (simp only: zmod_int of_nat_add)
  then show ?thesis by (simp only: uint_nat of_nat_numeral)
qed

lemma uint_wdiff: "uint (wdiff a b) mod 65535 = (uint a - uint b) mod 65535"
proof -
  have "(unat (wdiff a b) + unat b) mod MODULO = unat a mod MODULO"
    by (simp only: butterfly_range(4,6))
  then have "int ((unat (wdiff a b) + unat b) mod MODULO) = int (unat a mod MODULO)"
    by (rule arg_cong)
  then have "(int (unat (wdiff a b)) + int (unat b)) mod int MODULO = int (unat a) mod int MODULO"
    by (simp only: zmod_int of_nat_add)
  then have "(uint (wdiff a b) + uint b) mod 65535 = uint a mod 65535"
    by (simp only: uint_nat of_nat_numeral)
  then have "(uint (wdiff a b) + uint b - uint b) mod 65535 = (uint a - uint b) mod 65535"
    by (rule mod_diff_cong) (rule refl)
  then show ?thesis by (simp only: add_diff_cancel_right')
qed

lemma isum_append [simp]: "isum (xs @ ys) = isum xs + isum ys"
  by (simp add: isum_def)

lemma isum_single [simp]: "isum [x] = uint x"
  by (simp add: isum_def)

lemma isum_map2_wsum:
  "length L = length H \<Longrightarrow> isum (map2 wsum L H) mod 65535 = (isum L + isum H) mod 65535"
proof (induction L H rule: list_induct2)
  case Nil
  then show ?case by (simp add: isum_def)
next
  case (Cons a L b H)
  have "(uint (wsum a b) + isum (map2 wsum L H)) mod 65535
      = ((uint a + uint b) + (isum L + isum H)) mod 65535"
    by (rule mod_add_cong) (rule uint_wsum, rule Cons.IH)
  then show ?case by (simp add: isum_def algebra_simps)
qed

lemma isum_map2_wdiff:
  "length L = length H \<Longrightarrow> isum (map2 wdiff L H) mod 65535 = (isum L - isum H) mod 65535"
proof (induction L H rule: list_induct2)
  case Nil
  then show ?case by (simp add: isum_def)
next
  case (Cons a L b H)
  have "(uint (wdiff a b) + isum (map2 wdiff L H)) mod 65535
      = ((uint a - uint b) + (isum L - isum H)) mod 65535"
    by (rule mod_add_cong) (rule uint_wdiff, rule Cons.IH)
  then show ?case by (simp add: isum_def algebra_simps)
qed

lemma isum_pairs:
  assumes "length c = 2 * d"
  shows "isum (pairs wsum wdiff d c) mod 65535 = (2 * isum (take d c)) mod 65535"
proof -
  have l: "length (take d c) = length (drop d c)" using assms by simp
  have "(isum (map2 wsum (take d c) (drop d c)) + isum (map2 wdiff (take d c) (drop d c))) mod 65535
      = ((isum (take d c) + isum (drop d c)) + (isum (take d c) - isum (drop d c))) mod 65535"
    by (rule mod_add_cong) (rule isum_map2_wsum [OF l], rule isum_map2_wdiff [OF l])
  then show ?thesis by (simp add: pairs_def)
qed

lemma chunk_halves:
  "chunk (2 * d) k v = chunk d (2 * k) v @ chunk d (2 * k + 1) v"
proof -
  have "take (d + d) (drop (k * (2 * d)) v)
      = take d (drop (k * (2 * d)) v) @ take d (drop d (drop (k * (2 * d)) v))"
    by (rule take_add)
  moreover have "k * (2 * d) = 2 * k * d" "d + k * (2 * d) = (2 * k + 1) * d"
    by (simp_all add: algebra_simps)
  ultimately show ?thesis by (simp add: chunk_def mult_2 add.commute)
qed

lemma pow2_Suc_le:
  assumes "k < 2 ^ (m - n)" and "n \<le> m"
  shows "Suc k * 2 ^ n \<le> (2::nat) ^ m"
proof -
  have "Suc k \<le> 2 ^ (m - n)" using assms(1) by simp
  then have "Suc k * 2 ^ n \<le> 2 ^ (m - n) * 2 ^ n" by (rule mult_le_mono1)
  also have "\<dots> = 2 ^ m" using assms(2) by (simp flip: power_add)
  finally show ?thesis .
qed

lemma walsh_stage_block_head:
  assumes "e < m" and "2 ^ m \<le> length s" and "k < 2 ^ (m - Suc e)"
  shows "walsh_stage m e s ! (k * 2 ^ Suc e)
    = wsum (s ! (2 * k * 2 ^ e)) (s ! ((2 * k + 1) * 2 ^ e))"
proof -
  let ?w = "2 * 2 ^ e :: nat"
  have le: "Suc k * ?w \<le> 2 ^ m" using pow2_Suc_le [of k m "Suc e"] assms(1,3) by simp
  have l': "length (walsh_stage m e s) = length s" by (rule length_walsh_stage [OF assms(1,2)])
  have k: "k < 2 ^ (m - e - 1)" using assms(3) by simp
  have "walsh_stage m e s ! (k * ?w + 0) = chunk ?w k (walsh_stage m e s) ! 0"
    by (rule nth_chunk [symmetric]) (use le l' assms(2) in simp_all)
  also have "\<dots> = pairs wsum wdiff (2 ^ e) (chunk ?w k s) ! 0"
    by (simp only: walsh_stage_chunk [OF assms(1,2) k])
  also have "\<dots> = wsum (chunk ?w k s ! 0) (chunk ?w k s ! (0 + 2 ^ e))"
    using le assms(2) by (subst nth_pairs) (simp_all add: length_chunk)
  also have "chunk ?w k s ! 0 = s ! (k * ?w + 0)"
    by (rule nth_chunk) (use le assms(2) in simp_all)
  also have "chunk ?w k s ! (0 + 2 ^ e) = s ! (k * ?w + (0 + 2 ^ e))"
    by (rule nth_chunk) (use le assms(2) in simp_all)
  finally show ?thesis by (simp add: algebra_simps)
qed

text \<open>After \<open>n\<close> stages the first entry of every block of \<open>2 ^ n\<close> entries is congruent to
  the sum of that block of the input.\<close>

lemma walsh_block_heads:
  assumes "2 ^ m \<le> length v"
  shows "n \<le> m \<Longrightarrow> k < 2 ^ (m - n) \<Longrightarrow>
    uint (walsh_stages m n v ! (k * 2 ^ n)) mod 65535 = isum (chunk (2 ^ n) k v) mod 65535"
proof (induction n arbitrary: k)
  case 0
  then have "k < length v" using assms by simp
  then have "chunk 1 k v = [v ! k]" by (simp add: chunk_def take_Suc_conv_app_nth)
  then show ?case by simp
next
  case (Suc n)
  then have n: "n < m" by simp
  let ?W = "walsh_stages m n v"
  have l: "2 ^ m \<le> length ?W" using length_walsh_stages [of n m v] n assms by simp
  have k2: "2 * k < 2 ^ (m - n)" "2 * k + 1 < 2 ^ (m - n)"
  proof -
    have "m - n = Suc (m - Suc n)" using n by simp
    then have "(2::nat) ^ (m - n) = 2 * 2 ^ (m - Suc n)" by (simp only: power_Suc)
    then show "2 * k < 2 ^ (m - n)" "2 * k + 1 < 2 ^ (m - n)" using Suc.prems(2) by simp_all
  qed
  have a: "uint (?W ! (2 * k * 2 ^ n)) mod 65535 = isum (chunk (2 ^ n) (2 * k) v) mod 65535"
    by (rule Suc.IH) (use n k2 in simp_all)
  have b: "uint (?W ! ((2 * k + 1) * 2 ^ n)) mod 65535
      = isum (chunk (2 ^ n) (2 * k + 1) v) mod 65535"
    by (rule Suc.IH) (use n k2 in simp_all)
  have "uint (walsh_stages m (Suc n) v ! (k * 2 ^ Suc n)) mod 65535
      = uint (wsum (?W ! (2 * k * 2 ^ n)) (?W ! ((2 * k + 1) * 2 ^ n))) mod 65535"
    using walsh_stage_block_head [OF n l Suc.prems(2)] by simp
  also have "\<dots> = (uint (?W ! (2 * k * 2 ^ n)) + uint (?W ! ((2 * k + 1) * 2 ^ n))) mod 65535"
    by (rule uint_wsum)
  also have "\<dots> = (isum (chunk (2 ^ n) (2 * k) v) + isum (chunk (2 ^ n) (2 * k + 1) v)) mod 65535"
    by (rule mod_add_cong [OF a b])
  also have "\<dots> = isum (chunk (2 ^ Suc n) k v) mod 65535"
    using chunk_halves [of "2 ^ n" k v] by simp
  finally show ?case .
qed

text \<open>After \<open>n\<close> stages the first \<open>2 ^ n\<close> entries sum to \<open>2 ^ n\<close> times the first input
  entry, modulo \<open>MODULO\<close>.\<close>

lemma walsh_prefix_sum:
  assumes "2 ^ m \<le> length v"
  shows "n \<le> m \<Longrightarrow>
    isum (take (2 ^ n) (walsh_stages m n v)) mod 65535 = (2 ^ n * uint (v ! 0)) mod 65535"
proof (induction n)
  case 0
  have "0 < length v" using assms by (metis less_le_trans zero_less_numeral zero_less_power)
  then have "take 1 v = [v ! 0]" by (simp add: take_Suc_conv_app_nth)
  then show ?case by simp
next
  case (Suc n)
  then have n: "n < m" by simp
  let ?W = "walsh_stages m n v"
  let ?d = "2 ^ n :: nat"
  have l: "2 ^ m \<le> length ?W" using length_walsh_stages [of n m v] n assms by simp
  have le: "2 * ?d \<le> 2 ^ m" using pow2_Suc_le [of 0 m "Suc n"] n by simp
  have "take (2 * ?d) (walsh_stages m (Suc n) v) = chunk (2 * ?d) 0 (walsh_stage m n ?W)"
    by (simp add: chunk_def)
  also have "\<dots> = pairs wsum wdiff ?d (chunk (2 * ?d) 0 ?W)"
    by (rule walsh_stage_chunk [OF n l]) simp
  finally have "isum (take (2 * ?d) (walsh_stages m (Suc n) v)) mod 65535
      = (2 * isum (take ?d (chunk (2 * ?d) 0 ?W))) mod 65535"
    using le l by (simp only: isum_pairs [OF length_chunk] mult_1 One_nat_def mult_Suc mult_0 add_0_right)
  also have "take ?d (chunk (2 * ?d) 0 ?W) = take ?d ?W" by (simp add: chunk_def min_def)
  also have "(2 * isum (take ?d ?W)) mod 65535 = (2 * (2 ^ n * uint (v ! 0))) mod 65535"
    by (rule mod_mult_cong) (rule refl, rule Suc.IH, use n in simp)
  finally show ?case by (simp add: mult.assoc)
qed

lemma walsh_full:
  assumes "length v = FIELD_SIZE"
  shows "\<exists>W. walsh v FIELD_SIZE = Some W \<and> length W = FIELD_SIZE
    \<and> uint (W ! 0) mod 65535 = isum v mod 65535
    \<and> isum W mod 65535 = uint (v ! 0) mod 65535"
proof -
  have p: "FIELD_SIZE = 2 ^ 16" by simp
  have le: "2 ^ 16 \<le> length v" using assms by simp
  let ?W = "walsh_stages 16 16 v"
  have l: "length ?W = FIELD_SIZE" using length_walsh_stages [of 16 16 v] le assms by simp
  have "uint (?W ! (0 * 2 ^ 16)) mod 65535 = isum (chunk (2 ^ 16) 0 v) mod 65535"
    by (rule walsh_block_heads [OF le]) simp_all
  then have h: "uint (?W ! 0) mod 65535 = isum v mod 65535" using assms by (simp add: chunk_def)
  have "isum (take (2 ^ 16) ?W) mod 65535 = (2 ^ 16 * uint (v ! 0)) mod 65535"
    by (rule walsh_prefix_sum [OF le]) simp
  then have "isum ?W mod 65535 = (65536 * uint (v ! 0)) mod 65535" using l by simp
  also have "\<dots> = (1 * uint (v ! 0)) mod 65535"
    by (rule mod_mult_cong) simp_all
  finally have s: "isum ?W mod 65535 = uint (v ! 0) mod 65535" by simp
  have "walsh v FIELD_SIZE = Some ?W" unfolding p by (rule walsh_eq [OF le])
  then show ?thesis using l h s by blast
qed


section \<open>\<^verbatim>\<open>walsh\<close> computes the Walsh-Hadamard transform modulo \<open>MODULO\<close>\<close>

lemma length_hadamard: "length xs = 2 ^ n \<Longrightarrow> length (hadamard n xs) = 2 ^ n"
  by (induction n arbitrary: xs) simp_all

lemma length_residues [simp]: "length (residues xs) = length xs"
  by (simp add: residues_def)

lemma residues_append: "residues (xs @ ys) = residues xs @ residues ys"
  by (simp add: residues_def)

lemma nth_residues: "i < length xs \<Longrightarrow> residues xs ! i = xs ! i mod 65535"
  by (simp add: residues_def)

lemma residues_nth_eq:
  assumes "residues xs = residues ys" and "i < length xs"
  shows "xs ! i mod 65535 = ys ! i mod 65535"
proof -
  have "length xs = length ys" using assms(1) length_residues by metis
  then show ?thesis using nth_residues [of i xs] nth_residues [of i ys] assms by simp
qed

lemma residues_length_eq: "residues xs = residues ys \<Longrightarrow> length xs = length ys"
  using length_residues by metis

lemma residues_map2_add:
  assumes "residues xs = residues xs'" and "residues ys = residues ys'"
  shows "residues (map2 (+) xs ys) = residues (map2 (+) xs' ys')"
proof (rule nth_equalityI)
  have l: "length xs = length xs'" "length ys = length ys'"
    by (rule residues_length_eq [OF assms(1)], rule residues_length_eq [OF assms(2)])
  then show "length (residues (map2 (+) xs ys)) = length (residues (map2 (+) xs' ys'))" by simp
  fix i assume "i < length (residues (map2 (+) xs ys))"
  then have i: "i < length xs" "i < length ys" by simp_all
  have "(xs ! i + ys ! i) mod 65535 = (xs' ! i + ys' ! i) mod 65535"
    by (rule mod_add_cong [OF residues_nth_eq [OF assms(1) i(1)] residues_nth_eq [OF assms(2) i(2)]])
  then show "residues (map2 (+) xs ys) ! i = residues (map2 (+) xs' ys') ! i"
    using i l by (simp add: nth_residues)
qed

lemma residues_map2_diff:
  assumes "residues xs = residues xs'" and "residues ys = residues ys'"
  shows "residues (map2 (-) xs ys) = residues (map2 (-) xs' ys')"
proof (rule nth_equalityI)
  have l: "length xs = length xs'" "length ys = length ys'"
    by (rule residues_length_eq [OF assms(1)], rule residues_length_eq [OF assms(2)])
  then show "length (residues (map2 (-) xs ys)) = length (residues (map2 (-) xs' ys'))" by simp
  fix i assume "i < length (residues (map2 (-) xs ys))"
  then have i: "i < length xs" "i < length ys" by simp_all
  have "(xs ! i - ys ! i) mod 65535 = (xs' ! i - ys' ! i) mod 65535"
    by (rule mod_diff_cong [OF residues_nth_eq [OF assms(1) i(1)] residues_nth_eq [OF assms(2) i(2)]])
  then show "residues (map2 (-) xs ys) ! i = residues (map2 (-) xs' ys') ! i"
    using i l by (simp add: nth_residues)
qed

lemma residues_wsum:
  "length L = length H \<Longrightarrow>
   residues (map uint (map2 wsum L H)) = residues (map2 (+) (map uint L) (map uint H))"
  by (induction L H rule: list_induct2) (simp_all add: residues_def uint_wsum)

lemma residues_wdiff:
  "length L = length H \<Longrightarrow>
   residues (map uint (map2 wdiff L H)) = residues (map2 (-) (map uint L) (map uint H))"
  by (induction L H rule: list_induct2) (simp_all add: residues_def uint_wdiff)

text \<open>After \<open>n\<close> stages every block of \<open>2 ^ n\<close> entries holds, modulo \<open>MODULO\<close>, the transform
  of that block of the input.\<close>

lemma walsh_blocks_hadamard:
  assumes "2 ^ m \<le> length v"
  shows "n \<le> m \<Longrightarrow> k < 2 ^ (m - n) \<Longrightarrow>
    residues (map uint (chunk (2 ^ n) k (walsh_stages m n v)))
      = residues (hadamard n (map uint (chunk (2 ^ n) k v)))"
proof (induction n arbitrary: k)
  case 0
  show ?case by simp
next
  case (Suc n)
  then have n: "n < m" by simp
  let ?W = "walsh_stages m n v"
  let ?d = "2 ^ n :: nat"
  have lW: "length ?W = length v" using length_walsh_stages [of n m v] n assms by simp
  have l: "2 ^ m \<le> length ?W" using lW assms by simp
  have k2: "2 * k < 2 ^ (m - n)" "2 * k + 1 < 2 ^ (m - n)"
  proof -
    have "m - n = Suc (m - Suc n)" using n by simp
    then have "(2::nat) ^ (m - n) = 2 * 2 ^ (m - Suc n)" by (simp only: power_Suc)
    then show "2 * k < 2 ^ (m - n)" "2 * k + 1 < 2 ^ (m - n)" using Suc.prems(2) by simp_all
  qed
  have le: "Suc (2 * k) * ?d \<le> length v" "Suc (2 * k + 1) * ?d \<le> length v"
    using pow2_Suc_le [of "2 * k" m n] pow2_Suc_le [of "2 * k + 1" m n] k2 n assms by simp_all
  let ?A = "chunk ?d (2 * k) ?W" and ?B = "chunk ?d (2 * k + 1) ?W"
  let ?P = "chunk ?d (2 * k) v" and ?Q = "chunk ?d (2 * k + 1) v"
  have lA: "length ?A = ?d" "length ?B = ?d" "length ?P = ?d" "length ?Q = ?d"
    using le lW by (simp_all add: length_chunk)
  have a: "residues (map uint ?A) = residues (hadamard n (map uint ?P))"
    by (rule Suc.IH) (use n k2 in simp_all)
  have b: "residues (map uint ?B) = residues (hadamard n (map uint ?Q))"
    by (rule Suc.IH) (use n k2 in simp_all)
  have "chunk (2 ^ Suc n) k (walsh_stages m (Suc n) v) = chunk (2 * ?d) k (walsh_stage m n ?W)"
    by simp
  also have "\<dots> = pairs wsum wdiff ?d (chunk (2 * ?d) k ?W)"
    by (rule walsh_stage_chunk [OF n l]) (use Suc.prems(2) in simp)
  also have "chunk (2 * ?d) k ?W = ?A @ ?B" by (rule chunk_halves)
  also have "pairs wsum wdiff ?d (?A @ ?B) = map2 wsum ?A ?B @ map2 wdiff ?A ?B"
    using lA by (simp add: pairs_def)
  finally have E: "chunk (2 ^ Suc n) k (walsh_stages m (Suc n) v)
      = map2 wsum ?A ?B @ map2 wdiff ?A ?B" .
  have lAB: "length ?A = length ?B" using lA by simp
  have L: "residues (map uint (chunk (2 ^ Suc n) k (walsh_stages m (Suc n) v)))
      = residues (map2 (+) (map uint ?A) (map uint ?B))
        @ residues (map2 (-) (map uint ?A) (map uint ?B))"
    by (simp only: E map_append residues_append residues_wsum [OF lAB] residues_wdiff [OF lAB])
  have "chunk (2 ^ Suc n) k v = ?P @ ?Q" using chunk_halves [of ?d k v] by simp
  then have R: "hadamard (Suc n) (map uint (chunk (2 ^ Suc n) k v))
      = map2 (+) (hadamard n (map uint ?P)) (hadamard n (map uint ?Q))
        @ map2 (-) (hadamard n (map uint ?P)) (hadamard n (map uint ?Q))"
    using lA by simp
  show ?case
    by (simp only: L R residues_append residues_map2_add [OF a b] residues_map2_diff [OF a b])
qed

lemma drop_walsh_stages:
  "n \<le> m \<Longrightarrow> 2 ^ m \<le> length s \<Longrightarrow> drop (2 ^ m) (walsh_stages m n s) = drop (2 ^ m) s"
proof (induction n)
  case 0
  show ?case by simp
next
  case (Suc n)
  then have n: "n < m" by simp
  let ?W = "walsh_stages m n s"
  have l: "2 ^ m \<le> length ?W" using length_walsh_stages [of n m s] n Suc.prems by simp
  have "drop (2 ^ (m - n - 1) * (2 * 2 ^ n)) (walsh_stage m n ?W)
      = drop (2 ^ (m - n - 1) * (2 * 2 ^ n)) ?W"
    unfolding walsh_stage_def by (rule drop_blocks) (use stage_KW [OF n l] in simp_all)
  then have "drop (2 ^ m) (walsh_stage m n ?W) = drop (2 ^ m) ?W"
    by (simp only: pow2_split [OF n])
  then show ?case using Suc.IH n Suc.prems by simp
qed

text \<open>
  C4, amended.  For every array of 16-bit symbols and every power-of-two size \<open>2 ^ m\<close> within
  it, \<^verbatim>\<open>walsh\<close> returns an array of the same length, the result of its \<open>m\<close> butterfly stages
  (\<open>walsh_stages\<close>: stage \<open>e\<close> replaces each pair \<open>(x[i], x[i + 2 ^ e])\<close> by \<open>wsum\<close> and \<open>wdiff\<close>
  of it, the fold of the sum and of the difference, stored without truncation).  The
  entries from \<open>size\<close> on are unchanged; every entry lies in the closed range
  \<open>[0, MODULO]\<close>; and each of the first \<open>size\<close> entries is congruent modulo \<open>MODULO\<close> to the
  corresponding entry of the Walsh-Hadamard transform of the first \<open>size\<close> input entries
  (the sums and differences taken over the integers).  A result congruent to \<open>0\<close> may be
  stored as \<open>MODULO\<close>.
\<close>

theorem walsh_closed_range:
  assumes "sz = 2 ^ m" and "sz \<le> length data"
  shows "\<exists>data'. walsh data sz = Some data' \<and> length data' = length data
    \<and> data' = walsh_stages m m data
    \<and> drop sz data' = drop sz data
    \<and> (\<forall>i<length data'. unat (data' ! i) \<le> MODULO)
    \<and> map (\<lambda>w. uint w mod 65535) (take sz data')
        = map (\<lambda>z. z mod 65535) (hadamard m (map uint (take sz data)))
    \<and> (\<forall>a b. unat (wsum a b) = fold_reduce (unat a + unat b)
          \<and> unat (wdiff a b) = fold_reduce (unat a + MODULO - unat b))"
proof -
  let ?W = "walsh_stages m m data"
  have le: "2 ^ m \<le> length data" using assms by simp
  have run: "walsh data sz = Some ?W" unfolding assms(1) by (rule walsh_eq [OF le])
  have len: "length ?W = length data" using length_walsh_stages [of m m data] le by simp
  have fr: "drop sz ?W = drop sz data" unfolding assms(1) by (rule drop_walsh_stages [OF _ le]) simp
  have "residues (map uint (chunk (2 ^ m) 0 ?W)) = residues (hadamard m (map uint (chunk (2 ^ m) 0 data)))"
    by (rule walsh_blocks_hadamard [OF le]) simp_all
  then have "map (\<lambda>w. uint w mod 65535) (take sz ?W)
      = map (\<lambda>z. z mod 65535) (hadamard m (map uint (take sz data)))"
    unfolding assms(1) by (simp add: chunk_def residues_def comp_def)
  then show ?thesis using run len fr butterfly_range(5,6) by simp
qed

theorem walsh_closed_range_witness:
  "\<exists>data'. walsh [1, 65534, 7, 0, 9] 4 = Some data' \<and> length data' = length [1, 65534, 7, 0, 9 :: GFSymbol]
    \<and> data' = walsh_stages 2 2 [1, 65534, 7, 0, 9]
    \<and> drop 4 data' = drop 4 [1, 65534, 7, 0, 9]
    \<and> (\<forall>i<length data'. unat (data' ! i) \<le> MODULO)
    \<and> map (\<lambda>w. uint w mod 65535) (take 4 data')
        = map (\<lambda>z. z mod 65535) (hadamard 2 (map uint (take 4 [1, 65534, 7, 0, 9 :: GFSymbol])))
    \<and> (\<forall>a b. unat (wsum a b) = fold_reduce (unat a + unat b)
          \<and> unat (wdiff a b) = fold_reduce (unat a + MODULO - unat b))"
  by (rule walsh_closed_range) simp_all

section \<open>\<open>decode_init\<close> and the initial contents of the scratch array\<close>

lemma seed_loop:
  assumes "n \<le> length erasure" and "n \<le> length x"
  shows "for_range 0 n (seed_mask erasure) x = Some (map ucast (take n erasure) @ drop n x)"
  using assms
proof (induction n)
  case 0
  show ?case by (simp add: for_range_stop)
next
  case (Suc n)
  let ?A = "map ucast (take n erasure) :: GFSymbol list"
  have lA: "length ?A = n" using Suc.prems by simp
  have "for_range 0 (Suc n) (seed_mask erasure) x
      = Option.bind (for_range 0 n (seed_mask erasure) x) (seed_mask erasure n)"
    by (rule for_range_snoc) simp
  also have "\<dots> = seed_mask erasure n (?A @ drop n x)" using Suc by simp
  also have "\<dots> = Some ((?A @ drop n x)[n := ucast (erasure ! n)])"
    using Suc.prems by (simp add: seed_mask_def)
  also have "(?A @ drop n x)[n := ucast (erasure ! n)] = ?A @ (drop n x)[0 := ucast (erasure ! n)]"
    using lA by (simp add: list_update_append)
  also have "drop n x = x ! n # drop (Suc n) x"
    using Suc.prems by (simp add: Cons_nth_drop_Suc)
  also have "?A @ (x ! n # drop (Suc n) x)[0 := ucast (erasure ! n)]
      = map ucast (take (Suc n) erasure) @ drop (Suc n) x"
    using Suc.prems by (simp add: take_Suc_conv_app_nth)
  finally show ?case .
qed

lemma times_loop_total:
  assumes "n \<le> length x" and "n \<le> length (log_walsh t)"
  shows "\<exists>y. for_range 0 n (times_log_walsh t) x = Some y \<and> length y = length x"
  by (rule for_range_total [where I = "\<lambda>i s. length s = length x"])
    (use assms in \<open>auto simp: times_log_walsh_def\<close>)

lemma negate_loop_total:
  assumes "n \<le> length x" and "n \<le> length erasure"
  shows "\<exists>y. for_range 0 n (negate_erased erasure) x = Some y \<and> length y = length x"
  by (rule for_range_total [where I = "\<lambda>i s. length s = length x"])
    (use assms in \<open>auto simp: negate_erased_def\<close>)

lemma decode_init_after_seed:
  assumes "n \<le> length erasure" and "n \<le> length x"
  shows "decode_init t erasure x n
    = decode_init t erasure (map ucast (take n erasure) @ drop n x) n"
proof -
  let ?s = "map ucast (take n erasure) @ drop n x"
  have l: "n \<le> length ?s" using assms by simp
  have "map ucast (take n erasure) @ drop n ?s = ?s" using assms by simp
  then have "for_range 0 n (seed_mask erasure) ?s = Some ?s"
    using seed_loop [OF assms(1) l] by simp
  then show ?thesis using seed_loop [OF assms] by (simp add: decode_init_def)
qed

lemma decode_init_total:
  assumes "n \<le> FIELD_SIZE" and "n \<le> length erasure" and "length x = FIELD_SIZE"
    and "n \<le> length (log_walsh t)"
  shows "\<exists>y. decode_init t erasure x n = Some y \<and> length y = FIELD_SIZE"
proof -
  let ?s = "map ucast (take n erasure) @ drop n x"
  have s: "for_range 0 n (seed_mask erasure) x = Some ?s"
    by (rule seed_loop) (use assms in simp_all)
  have ls: "length ?s = FIELD_SIZE" using assms by simp
  from walsh_full [OF ls] obtain W1 where w1: "walsh ?s FIELD_SIZE = Some W1"
    and l1: "length W1 = FIELD_SIZE" by blast
  from times_loop_total [of n W1 t] obtain y1
    where t1: "for_range 0 n (times_log_walsh t) W1 = Some y1" and ly: "length y1 = FIELD_SIZE"
    using assms l1 by auto
  from walsh_full [OF ly] obtain W2 where w2: "walsh y1 FIELD_SIZE = Some W2"
    and l2: "length W2 = FIELD_SIZE" by blast
  from negate_loop_total [of n W2 erasure] obtain y
    where n1: "for_range 0 n (negate_erased erasure) W2 = Some y" and "length y = FIELD_SIZE"
    using assms l2 by auto
  then show ?thesis using s w1 t1 w2 by (simp add: decode_init_def)
qed

lemma isum_replicate_zero [simp]: "isum (replicate n 0) = 0"
  by (induction n) (simp_all add: isum_def)

lemma isum_Cons [simp]: "isum (a # xs) = uint a + isum xs"
  by (simp add: isum_def)

lemma isum_update_head: "0 < length xs \<Longrightarrow> isum (xs[0 := v]) = isum xs - uint (xs ! 0) + uint v"
  by (cases xs) simp_all

text \<open>With \<open>n = 1\<close> and a mask that is false at position \<open>0\<close>: entry \<open>0\<close> of the result is,
  modulo \<open>2\<^sup>16 - 1\<close>, minus the sum of the initial entries \<open>1 .. 2\<^sup>16 - 1\<close> of the scratch array,
  whenever \<open>log_walsh[0]\<close> is a multiple of \<open>2\<^sup>16 - 1\<close>.\<close>

lemma decode_init_one:
  assumes "length x = FIELD_SIZE" and "length (log_walsh t) = FIELD_SIZE"
    and "unat (log_walsh t ! 0) mod MODULO = 0"
  shows "\<exists>y. decode_init t [0] x 1 = Some y \<and> length y = FIELD_SIZE
    \<and> (uint (y ! 0) + isum (tl x)) mod 65535 = 0"
proof -
  let ?s = "0 # tl x"
  have s: "for_range 0 1 (seed_mask [0]) x = Some ?s"
    using seed_loop [of 1 "[0]" x] assms by (simp add: drop_Suc)
  have ls: "length ?s = FIELD_SIZE" using assms by simp
  from walsh_full [OF ls] obtain W1 where w1: "walsh ?s FIELD_SIZE = Some W1"
    and l1: "length W1 = FIELD_SIZE"
    and h1: "uint (W1 ! 0) mod 65535 = isum ?s mod 65535"
    and s1: "isum W1 mod 65535 = uint (?s ! 0) mod 65535" by blast
  have "(unat (W1 ! 0) * unat (log_walsh t ! 0)) mod MODULO
      = (unat (W1 ! 0) * (unat (log_walsh t ! 0) mod MODULO)) mod MODULO"
    by (simp only: mod_mult_right_eq)
  then have p: "(unat (W1 ! 0) * unat (log_walsh t ! 0)) mod MODULO = 0"
    using assms(3) by simp
  let ?y1 = "W1[0 := 0]"
  have "for_range 0 1 (times_log_walsh t) W1
      = Option.bind (times_log_walsh t 0 W1) (for_range 1 1 (times_log_walsh t))"
    using for_range_step [of 0 1 "times_log_walsh t" W1] by simp
  also have "times_log_walsh t 0 W1 = Some ?y1"
    using l1 assms(2) p by (simp add: times_log_walsh_def)
  finally have t1: "for_range 0 1 (times_log_walsh t) W1 = Some ?y1"
    by (simp add: for_range_stop)
  have ly: "length ?y1 = FIELD_SIZE" using l1 by simp
  from walsh_full [OF ly] obtain W2 where w2: "walsh ?y1 FIELD_SIZE = Some W2"
    and l2: "length W2 = FIELD_SIZE"
    and h2: "uint (W2 ! 0) mod 65535 = isum ?y1 mod 65535" by blast
  have "for_range 0 1 (negate_erased [0]) W2
      = Option.bind (negate_erased [0] 0 W2) (for_range 1 1 (negate_erased [0]))"
    using for_range_step [of 0 1 "negate_erased [0]" W2] by simp
  then have n1: "for_range 0 1 (negate_erased [0]) W2 = Some W2"
    by (simp add: negate_erased_def for_range_stop)
  have run: "decode_init t [0] x 1 = Some W2"
    using s w1 t1 w2 n1 by (simp add: decode_init_def)
  have y1: "isum ?y1 = isum W1 - uint (W1 ! 0)"
    using isum_update_head [of W1 0] l1 by simp
  have a: "isum W1 mod 65535 = 0 mod 65535" using s1 by simp
  have b: "uint (W1 ! 0) mod 65535 = isum (tl x) mod 65535" using h1 by simp
  have "(uint (W2 ! 0) + isum (tl x)) mod 65535 = (isum ?y1 + isum (tl x)) mod 65535"
    by (rule mod_add_cong [OF h2 refl])
  also have "\<dots> = (isum W1 - uint (W1 ! 0) + isum (tl x)) mod 65535" by (simp only: y1)
  also have "\<dots> = (0 - isum (tl x) + isum (tl x)) mod 65535"
    by (rule mod_add_cong [OF mod_diff_cong [OF a b] refl])
  finally have "(uint (W2 ! 0) + isum (tl x)) mod 65535 = 0" by simp
  then show ?thesis using run l2 by simp
qed

text \<open>The sum of the logarithms of the nonzero symbols.\<close>

lemma perm_sum:
  fixes f :: "nat \<Rightarrow> nat"
  assumes "inj_on f {1..<Suc N}" and "\<forall>x\<in>{1..<Suc N}. f x < N"
  shows "(\<Sum>x\<in>{1..<Suc N}. f x) = (\<Sum>j\<in>{0..<N}. j)"
proof -
  have sub: "f ` {1..<Suc N} \<subseteq> {0..<N}" using assms(2) by auto
  have "card (f ` {1..<Suc N}) = N" using assms(1) by (simp add: card_image)
  then have "f ` {1..<Suc N} = {0..<N}" using sub by (intro card_subset_eq) simp_all
  then have "(\<Sum>j\<in>{0..<N}. j) = (\<Sum>j\<in>f ` {1..<Suc N}. j)" by simp
  also have "\<dots> = (\<Sum>x\<in>{1..<Suc N}. f x)" using assms(1) by (simp add: sum.reindex)
  finally show ?thesis by simp
qed

lemma isum_as_sum: "isum xs = int (\<Sum>i\<in>{0..<length xs}. unat (xs ! i))"
proof -
  have "isum xs = (\<Sum>i\<in>{0..<length xs}. map uint xs ! i)"
    unfolding isum_def by (simp only: sum_list_sum_nth length_map)
  also have "\<dots> = (\<Sum>i\<in>{0..<length xs}. int (unat (xs ! i)))"
    by (rule sum.cong) simp_all
  finally show ?thesis by simp
qed

lemma gauss_twice: "2 * (\<Sum>j\<in>{0..<Suc N}. j) = N * Suc N"
  by (induction N) simp_all

lemma build_log_walsh_head:
  assumes lL: "length (LOG_TABLE t) = FIELD_SIZE" and lw: "length (log_walsh t) = FIELD_SIZE"
    and small: "\<forall>x<FIELD_SIZE. 0 < x \<longrightarrow> unat (LOG_TABLE t ! x) < MODULO"
    and inj: "\<forall>x<FIELD_SIZE. \<forall>y<FIELD_SIZE. LOG_TABLE t ! x = LOG_TABLE t ! y \<longrightarrow> x = y"
  shows "\<exists>lw. build_log_walsh t = Some lw \<and> length lw = FIELD_SIZE
    \<and> unat (lw ! 0) mod MODULO = 0"
proof -
  let ?L = "(LOG_TABLE t)[0 := 0]"
  have m: "memcpy_c (log_walsh t) 0 (LOG_TABLE t) FIELD_SIZE = Some (LOG_TABLE t)"
    using lL lw by (simp add: memcpy_c_def)
  have lL0: "length ?L = FIELD_SIZE" using lL by simp
  from walsh_full [OF lL0] obtain W where w: "walsh ?L FIELD_SIZE = Some W"
    and lW: "length W = FIELD_SIZE"
    and h: "uint (W ! 0) mod 65535 = isum ?L mod 65535" by blast
  have run: "build_log_walsh t = Some W" using m w lL by (simp add: build_log_walsh_def)
  define f where "f i = unat (LOG_TABLE t ! i)" for i
  define S where "S = (\<Sum>j\<in>{0..<MODULO}. j)"
  have a: "isum ?L = int (\<Sum>i\<in>{0..<FIELD_SIZE}. unat (?L ! i))"
    using isum_as_sum [of ?L] by (simp only: lL0)
  have b: "(\<Sum>i\<in>{0..<FIELD_SIZE}. unat (?L ! i))
      = unat (?L ! 0) + (\<Sum>i\<in>{Suc 0..<FIELD_SIZE}. unat (?L ! i))"
    by (rule sum.atLeast_Suc_lessThan) simp
  have c: "unat (?L ! 0) = 0" using lL by simp
  have d: "(\<Sum>i\<in>{Suc 0..<FIELD_SIZE}. unat (?L ! i)) = (\<Sum>i\<in>{1..<Suc MODULO}. f i)"
    by (rule sum.cong) (simp_all add: f_def)
  have e: "(\<Sum>i\<in>{1..<Suc MODULO}. f i) = (\<Sum>j\<in>{0..<MODULO}. j)"
  proof (rule perm_sum)
    show "inj_on f {1..<Suc MODULO}"
      using inj by (auto simp: inj_on_def f_def word_unat_eq_iff [symmetric])
    show "\<forall>x\<in>{1..<Suc MODULO}. f x < MODULO"
      using small by (auto simp: f_def)
  qed
  have "2 * (\<Sum>j\<in>{0..<Suc 65534}. j) = 65534 * Suc 65534" by (rule gauss_twice)
  then have "2 * S = 65534 * 65535" by (simp add: S_def)
  then have g: "S = 32767 * MODULO" by simp
  have "isum ?L = int S" using a b c d e by (simp only: S_def add_0)
  then have "isum ?L mod 65535 = 0" using g by simp
  then have "uint (W ! 0) mod 65535 = 0" using h by simp
  moreover have "int (unat (W ! 0) mod MODULO) = uint (W ! 0) mod 65535"
    by (simp only: zmod_int uint_nat of_nat_numeral)
  ultimately have "unat (W ! 0) mod MODULO = 0" by simp
  then show ?thesis using run lW by simp
qed

lemma init_then_log_walsh_props:
  "length (log_walsh init_then_log_walsh) = FIELD_SIZE"
  "unat (log_walsh init_then_log_walsh ! 0) mod MODULO = 0"
proof -
  have "length (LOG_TABLE zero_tables) = FIELD_SIZE" "length (EXP_TABLE zero_tables) = FIELD_SIZE"
    by (simp_all add: zero_tables_def)
  from init_spec [OF this] obtain t' where i: "init zero_tables = Some t'"
    and lL: "length (LOG_TABLE t') = FIELD_SIZE"
    and lw: "log_walsh t' = log_walsh zero_tables"
    and small: "\<forall>x<FIELD_SIZE. 0 < x \<longrightarrow> unat (LOG_TABLE t' ! x) < MODULO"
    and inj: "\<forall>x<FIELD_SIZE. \<forall>y<FIELD_SIZE. LOG_TABLE t' ! x = LOG_TABLE t' ! y \<longrightarrow> x = y"
    by blast
  have "length (log_walsh t') = FIELD_SIZE" using lw by (simp add: zero_tables_def)
  from build_log_walsh_head [OF lL this small inj] obtain lw'
    where "build_log_walsh t' = Some lw'" "length lw' = FIELD_SIZE"
      "unat (lw' ! 0) mod MODULO = 0" by (elim exE conjE) (rule that)
  then show "length (log_walsh init_then_log_walsh) = FIELD_SIZE"
    "unat (log_walsh init_then_log_walsh ! 0) mod MODULO = 0"
    using i by (simp_all add: init_then_log_walsh_def)
qed

text \<open>Claim C10, as stated, does not hold. On the tables of \<^verbatim>\<open>setup()\<close> (logarithms and
  exponentials as \<open>init\<close> builds them, \<open>log_walsh\<close> as the last three statements of
  \<^verbatim>\<open>init_dec\<close> build it), take \<open>n = 1\<close> and the mask \<open>[false]\<close>. Two runs of \<open>decode_init\<close> whose
  scratch arrays differ only at position \<open>1\<close>, which is outside the first \<open>n\<close> entries
  (all zero in one run, the value \<open>1\<close> at position \<open>1\<close> in the other), both return, and their
  results differ at position \<open>0\<close>: both transforms run over all \<open>2\<^sup>16\<close> entries, so the
  entries from \<open>n\<close> on reach the first \<open>n\<close> results.\<close>

theorem decode_init_scratch_tail_counterexample:
  "decode_init init_then_log_walsh [0] (replicate FIELD_SIZE 0) 1 \<noteq> None
   \<and> decode_init init_then_log_walsh [0] (0 # 1 # replicate (FIELD_SIZE - 2) 0) 1 \<noteq> None
   \<and> take 1 (the (decode_init init_then_log_walsh [0] (replicate FIELD_SIZE 0) 1))
     \<noteq> take 1 (the (decode_init init_then_log_walsh [0] (0 # 1 # replicate (FIELD_SIZE - 2) 0) 1))"
proof -
  let ?x = "replicate FIELD_SIZE 0 :: GFSymbol list"
  let ?x' = "0 # 1 # replicate (FIELD_SIZE - 2) 0 :: GFSymbol list"
  note T = init_then_log_walsh_props
  have "length ?x = FIELD_SIZE" by simp
  from decode_init_one [OF this T] obtain y
    where y: "decode_init init_then_log_walsh [0] ?x 1 = Some y" "length y = FIELD_SIZE"
      and "(uint (y ! 0) + isum (tl ?x)) mod 65535 = 0" by (elim exE conjE) (rule that)
  then have v: "uint (y ! 0) mod 65535 = 0" by simp
  have "length ?x' = FIELD_SIZE" by simp
  from decode_init_one [OF this T] obtain y'
    where y': "decode_init init_then_log_walsh [0] ?x' 1 = Some y'" "length y' = FIELD_SIZE"
      and "(uint (y' ! 0) + isum (tl ?x')) mod 65535 = 0" by (elim exE conjE) (rule that)
  then have v': "(uint (y' ! 0) + 1) mod 65535 = 0" by simp
  have "y ! 0 \<noteq> y' ! 0"
  proof
    assume "y ! 0 = y' ! 0"
    then have "uint (y' ! 0) mod 65535 = 0 mod 65535" using v by simp
    then have "(uint (y' ! 0) + 1) mod 65535 = (0 + 1) mod 65535"
      by (rule mod_add_cong) simp
    then show False using v' by simp
  qed
  moreover have "take 1 y = [y ! 0]" "take 1 y' = [y' ! 0]"
    using y(2) y'(2) by (simp_all add: take_Suc_conv_app_nth)
  ultimately show ?thesis using y(1) y'(1) by simp
qed

text \<open>Claim C10, amended. For every \<open>n \<le> 2\<^sup>16\<close>, every mask with at least \<open>n\<close> entries and every
  table state whose \<open>log_walsh\<close> has at least \<open>n\<close> entries: two runs of
  \<open>decode_init(erasure, log_walsh2, n)\<close> on scratch arrays of \<open>2\<^sup>16\<close> entries that agree on the
  entries \<open>n .. 2\<^sup>16 - 1\<close> both return, with the same array. The initial contents of the first
  \<open>n\<close> entries never matter (the first loop overwrites them with the mask); the entries from
  \<open>n\<close> on do. For \<open>n = 2\<^sup>16\<close> the result does not depend on the scratch array at all.\<close>

theorem decode_init_scratch_tail:
  assumes "n \<le> FIELD_SIZE" and "n \<le> length erasure" and "n \<le> length (log_walsh t)"
    and "length x = FIELD_SIZE" and "length x' = FIELD_SIZE"
    and "drop n x = drop n x'"
  shows "\<exists>y. decode_init t erasure x n = Some y \<and> decode_init t erasure x' n = Some y"
proof -
  have "decode_init t erasure x n
      = decode_init t erasure (map ucast (take n erasure) @ drop n x) n"
    by (rule decode_init_after_seed) (use assms in simp_all)
  moreover have "decode_init t erasure x' n
      = decode_init t erasure (map ucast (take n erasure) @ drop n x') n"
    by (rule decode_init_after_seed) (use assms in simp_all)
  ultimately have eq: "decode_init t erasure x' n = decode_init t erasure x n"
    using assms(6) by simp
  from decode_init_total [OF assms(1,2,4,3)]
  obtain y where "decode_init t erasure x n = Some y" by blast
  then show ?thesis using eq by simp
qed

theorem decode_init_scratch_tail_witness:
  "\<exists>y. decode_init zero_tables [1, 0] (replicate FIELD_SIZE 0) 2 = Some y
     \<and> decode_init zero_tables [1, 0] (5 # 7 # replicate (FIELD_SIZE - 2) 0) 2 = Some y"
  using decode_init_scratch_tail [of 2 "[1, 0]" zero_tables "replicate FIELD_SIZE 0"
      "5 # 7 # replicate (FIELD_SIZE - 2) 0"]
  by (simp add: zero_tables_def)

section \<open>\<^verbatim>\<open>decode_main\<close> returns, and zeroes the known positions\<close>

subsection \<open>The formal derivative\<close>

lemma xor_pred_odd: "(2 * a + 1) XOR (2 * a) = (1::nat)"
  by (subst xor_nat_rec) simp

lemma xor_pred_even: "(2 * Suc b) XOR (2 * b + 1) = 1 + 2 * (Suc b XOR (b :: nat))"
  by (subst xor_nat_rec) simp

text \<open>\<open>(i XOR (i - 1)) + 1\<close> is twice the lowest set bit of \<open>i\<close>.\<close>

lemma lowbit_pow2:
  "0 < i \<Longrightarrow> \<exists>r. (i XOR (i - 1)) + 1 = 2 * 2 ^ r \<and> 2 ^ r dvd (i :: nat)"
proof (induction i rule: less_induct)
  case (less i)
  show ?case
  proof (cases "even i")
    case False
    then obtain a where i: "i = 2 * a + 1" by (auto elim: oddE)
    have "(i XOR (i - 1)) + 1 = 2 * 2 ^ 0 \<and> 2 ^ 0 dvd i"
      unfolding i using xor_pred_odd [of a] by simp
    then show ?thesis by blast
  next
    case True
    then obtain a where a: "i = 2 * a" by (auto elim: evenE)
    with less.prems obtain b where b: "a = Suc b" by (cases a) auto
    have "a < i" "0 < a" using a b by simp_all
    from less.IH [OF this] obtain r where r: "(a XOR (a - 1)) + 1 = 2 * 2 ^ r" "2 ^ r dvd a"
      by blast
    have "i - 1 = 2 * b + 1" using a b by simp
    then have "i XOR (i - 1) = 1 + 2 * (Suc b XOR b)"
      using xor_pred_even [of b] a b by simp
    then have "(i XOR (i - 1)) + 1 = 2 * ((a XOR (a - 1)) + 1)" using b by simp
    then have "(i XOR (i - 1)) + 1 = 2 * 2 ^ Suc r" using r(1) by simp
    moreover have "2 ^ Suc r dvd i" using r(2) a by simp
    ultimately show ?thesis by blast
  qed
qed

lemma leng_bounds:
  assumes "0 < (i::nat)" and "i < 2 ^ m"
  shows "drop_bit 1 ((i XOR (i - 1)) + 1) \<le> i"
    and "i + drop_bit 1 ((i XOR (i - 1)) + 1) \<le> 2 ^ m"
proof -
  from lowbit_pow2 [OF assms(1)] obtain r
    where r: "(i XOR (i - 1)) + 1 = 2 * 2 ^ r" and d: "2 ^ r dvd i" by blast
  have leng: "drop_bit 1 ((i XOR (i - 1)) + 1) = 2 ^ r"
    by (simp only: r drop_bit_eq_div) simp
  have le: "2 ^ r \<le> i" using d assms(1) by (rule_tac dvd_imp_le)
  show "drop_bit 1 ((i XOR (i - 1)) + 1) \<le> i" using le leng by simp
  have "(2::nat) ^ r < 2 ^ m" using le assms(2) by (rule le_less_trans)
  then have rm: "r < m" by simp
  then have "(2::nat) ^ m = 2 ^ (m - r) * 2 ^ r" by (simp flip: power_add)
  moreover obtain c where c: "i = c * 2 ^ r" using d by (auto simp: dvd_def mult.commute)
  ultimately have "c * 2 ^ r < 2 ^ (m - r) * 2 ^ r" using assms(2) by simp
  then have "c < 2 ^ (m - r)" by simp
  then have "Suc c * 2 ^ r \<le> 2 ^ m" using pow2_Suc_le [of c m r] rm by simp
  then show "i + drop_bit 1 ((i XOR (i - 1)) + 1) \<le> 2 ^ m" using c leng by simp
qed

lemma formal_derivative_total:
  assumes "2 ^ m \<le> length cos"
  shows "\<exists>c. formal_derivative cos (2 ^ m) = Some c \<and> length c = length cos"
  unfolding formal_derivative_def
proof (rule for_range_total [where I = "\<lambda>i s. length s = length cos"])
  show "length cos = length cos" by simp
  show "1 \<le> (2::nat) ^ m" by simp
next
  fix i :: nat and s :: "GFSymbol list"
  assume i: "1 \<le> i" "i < 2 ^ m" and l: "length s = length cos"
  define leng where "leng = drop_bit 1 ((i XOR (i - 1)) + 1)"
  have i0: "0 < i" using i(1) by simp
  have b: "leng \<le> i" "i + leng \<le> 2 ^ m"
    unfolding leng_def by (rule leng_bounds(1) [OF i0 i(2)], rule leng_bounds(2) [OF i0 i(2)])
  have "\<exists>s'. for_range (i - leng) i (\<lambda>j cos. do {
         a \<leftarrow> rd cos j;
         b \<leftarrow> rd cos (j + leng);
         wr cos j (a XOR b)
       }) s = Some s' \<and> length s' = length cos"
  proof (rule for_range_total [where I = "\<lambda>j s. length s = length cos"])
    show "length s = length cos" by (rule l)
    show "i - leng \<le> i" by simp
  next
    fix j and s1 :: "GFSymbol list"
    assume j: "i - leng \<le> j" "j < i" and l1: "length s1 = length cos"
    have "j + leng < length s1" using j b assms l1 by linarith
    then show "\<exists>s'. do {
         a \<leftarrow> rd s1 j;
         b \<leftarrow> rd s1 (j + leng);
         wr s1 j (a XOR b)
       } = Some s' \<and> length s' = length cos" using l1 by simp
  qed
  then show "\<exists>s'. (let leng = drop_bit 1 ((i XOR (i - 1)) + 1) in
       for_range (i - leng) i (\<lambda>j cos. do {
         a \<leftarrow> rd cos j;
         b \<leftarrow> rd cos (j + leng);
         wr cos j (a XOR b)
       }) s) = Some s' \<and> length s' = length cos"
    unfolding leng_def Let_def .
qed

subsection \<open>The counting loops\<close>

lemma blank_loop_total:
  assumes "length (LOG_TABLE t) = FIELD_SIZE" and "length (EXP_TABLE t) = FIELD_SIZE"
    and "n \<le> length codeword" and "n \<le> length erasure" and "n \<le> length log_walsh2"
  shows "\<exists>c. for_range 0 n (blank_or_scale t erasure log_walsh2) codeword = Some c
    \<and> length c = length codeword"
  by (rule for_range_total [where I = "\<lambda>i s. length s = length codeword"])
    (use assms in \<open>auto simp: blank_or_scale_def mulE_total\<close>)

lemma recover_loop_total:
  assumes "length (LOG_TABLE t) = FIELD_SIZE" and "length (EXP_TABLE t) = FIELD_SIZE"
    and "k \<le> length codeword" and "k \<le> length erasure" and "k \<le> length log_walsh2"
  shows "\<exists>c. for_range 0 k (recover t erasure log_walsh2) codeword = Some c
    \<and> length c = length codeword"
  by (rule for_range_total [where I = "\<lambda>i s. length s = length codeword"])
    (use assms in \<open>auto simp: recover_def mulE_total\<close>)

lemma scale_pair_total:
  assumes "length (LOG_TABLE t) = FIELD_SIZE" and "length (EXP_TABLE t) = FIELD_SIZE"
    and "2 * k + 1 < length c" and "k < length (B t)"
  shows "\<exists>c'. scale_pair t neg (2 * k) c = Some c' \<and> length c' = length c"
proof -
  have "drop_bit 1 (2 * k) = k" by (simp add: drop_bit_eq_div)
  then show ?thesis using assms by (simp add: scale_pair_def mulE_total)
qed

lemma scale_loop_total:
  assumes "length (LOG_TABLE t) = FIELD_SIZE" and "length (EXP_TABLE t) = FIELD_SIZE"
    and "0 < m" and "2 ^ m \<le> length c" and "2 ^ m \<le> 2 * length (B t)"
  shows "\<exists>c'. for_step 0 (2 ^ m) 2 (scale_pair t neg) c = Some c' \<and> length c' = length c"
proof -
  let ?K = "2 ^ (m - 1) :: nat"
  have K: "?K * 2 = 2 ^ m" using assms(3) by (cases m) simp_all
  have "for_step 0 (2 ^ m) 2 (scale_pair t neg) c
      = for_range 0 ?K (\<lambda>k. scale_pair t neg (0 + k * 2)) c"
  proof (rule for_step_as_range)
    show "0 < (2::nat)" by simp
    show "2 ^ m \<le> 0 + ?K * 2" using K by simp
    have "0 < ?K" by simp
    then have "(?K - 1) * 2 < ?K * 2" by linarith
    then show "?K = 0 \<or> 0 + (?K - 1) * 2 < 2 ^ m" by (simp only: K add_0) simp
  qed
  moreover have "\<exists>c'. for_range 0 ?K (\<lambda>k. scale_pair t neg (0 + k * 2)) c = Some c'
      \<and> length c' = length c"
  proof (rule for_range_total [where I = "\<lambda>i s. length s = length c"])
    show "length c = length c" by simp
    show "0 \<le> ?K" by simp
  next
    fix k and s :: "GFSymbol list"
    assume k: "k < ?K" and l: "length s = length c"
    have "2 * k + 1 < 2 ^ m" using k K by linarith
    then have a: "2 * k + 1 < length s" using assms(4) l by linarith
    have b: "k < length (B t)" using k K assms(5) by linarith
    from scale_pair_total [OF assms(1,2) a b, of neg]
    show "\<exists>s'. scale_pair t neg (0 + k * 2) s = Some s' \<and> length s' = length c"
      using l by (simp add: mult.commute)
  qed
  ultimately show ?thesis by simp
qed

subsection \<open>The whole of \<^verbatim>\<open>decode_main\<close>\<close>

lemma decode_main_total:
  assumes L: "length (LOG_TABLE t) = FIELD_SIZE" and E: "length (EXP_TABLE t) = FIELD_SIZE"
    and S: "2 ^ m - 1 \<le> length (skewVec t)" and Bl: "2 ^ m \<le> 2 * length (B t)"
    and m: "0 < m" and c: "2 ^ m \<le> length codeword" and e: "2 ^ m \<le> length erasure"
    and w: "2 ^ m \<le> length log_walsh2" and k: "k \<le> 2 ^ m"
  shows "\<exists>c6 c7. decode_main t codeword k erasure log_walsh2 (2 ^ m) = Some c7
    \<and> for_range 0 k (recover t erasure log_walsh2) c6 = Some c7
    \<and> length c7 = length codeword"
proof -
  have sk: "\<forall>j. 0 < j \<and> j < 2 ^ m \<longrightarrow> j + 0 - 1 < length (skewVec t)"
    using S by auto
  from blank_loop_total [OF L E c e w] obtain c1
    where 1: "for_range 0 (2 ^ m) (blank_or_scale t erasure log_walsh2) codeword = Some c1"
      and l1: "length c1 = length codeword" by blast
  define c2 where "c2 = IFLT_stages t 0 m m c1"
  have 2: "IFLT t c1 (2 ^ m) 0 = Some c2"
    unfolding c2_def by (rule IFLT_eq [OF _ sk L E]) (use l1 c in simp)
  have l2: "length c2 = length codeword"
    unfolding c2_def using length_IFLT_stages [of m m c1 t 0] l1 c by simp
  from scale_loop_total [OF L E m _ Bl, of c2 True] obtain c3
    where 3: "for_step 0 (2 ^ m) 2 (scale_pair t True) c2 = Some c3"
      and l3: "length c3 = length codeword" using l2 c by auto
  from formal_derivative_total [of m c3] obtain c4
    where 4: "formal_derivative c3 (2 ^ m) = Some c4" and l4: "length c4 = length codeword"
    using l3 c by auto
  from scale_loop_total [OF L E m _ Bl, of c4 False] obtain c5
    where 5: "for_step 0 (2 ^ m) 2 (scale_pair t False) c4 = Some c5"
      and l5: "length c5 = length codeword" using l4 c by auto
  define c6 where "c6 = FLT_stages t 0 m m c5"
  have 6: "FLT t c5 (2 ^ m) 0 = Some c6"
    unfolding c6_def by (rule FLT_eq [OF _ sk L E]) (use l5 c in simp)
  have l6: "length c6 = length codeword"
    unfolding c6_def using length_FLT_stages [of m m c5 t 0] l5 c by simp
  from recover_loop_total [OF L E, of k c6 erasure log_walsh2] obtain c7
    where 7: "for_range 0 k (recover t erasure log_walsh2) c6 = Some c7"
      and l7: "length c7 = length codeword" using l6 c e w k by auto
  have "decode_main t codeword k erasure log_walsh2 (2 ^ m) = Some c7"
    unfolding decode_main_def Let_def by (simp only: 1 2 3 4 5 6 7 bind.bind_lunit)
  then show ?thesis using 7 l7 by blast
qed

lemma blank_or_scale_length:
  "blank_or_scale t erasure log_walsh2 i s = Some s' \<Longrightarrow> length s' = length s"
  by (auto simp: blank_or_scale_def bind_eq_Some_conv split: if_splits)

lemma scale_pair_single:
  assumes "length c = 1"
  shows "scale_pair t neg 0 c = None"
proof (cases "scale_pair t neg 0 c")
  case None
  then show ?thesis .
next
  case (Some c')
  then have "Suc 0 < length c"
    by (auto simp: scale_pair_def bind_eq_Some_conv)
  then show ?thesis using assms by simp
qed

lemma decode_main_single: "decode_main t [a] 1 erasure log_walsh2 1 = None"
proof (cases "for_range 0 1 (blank_or_scale t erasure log_walsh2) [a]")
  case None
  then show ?thesis by (simp add: decode_main_def)
next
  case (Some c1)
  have l: "length c1 = 1"
    by (rule for_range_inv [OF Some]) (simp_all add: blank_or_scale_length)
  have i: "IFLT t c1 1 0 = Some c1" by (simp add: IFLT_def for_shl_stop)
  have "for_step 0 1 2 (scale_pair t True) c1
      = Option.bind (scale_pair t True 0 c1) (for_step (0 + 2) 1 2 (scale_pair t True))"
    by (rule for_step_step) simp_all
  then have "for_step 0 1 2 (scale_pair t True) c1 = None"
    by (simp add: scale_pair_single [OF l])
  then show ?thesis using Some i by (simp add: decode_main_def)
qed

lemma decode_main_run:
  "decode_main (zero_tables\<lparr>EXP_TABLE := replicate FIELD_SIZE 1\<rparr>) [7, 9] 1 [0, 0] [0, 0] 2
     = Some [0, 1]"
proof -
  have [simp]: "drop_bit (Suc 0) (Suc (Suc 0)) = Suc 0"
    by (simp add: drop_bit_Suc)
  show ?thesis
    by (simp add: decode_main_def blank_or_scale_def IFLT_def FLT_def IFLT_block_def
      FLT_block_def formal_derivative_def scale_pair_def
      recover_def xor_up_def xor_mul_def mulE_def fold_reduce_def zero_tables_def
      for_range.simps for_step.simps for_shl.simps for_shr.simps)
qed

text \<open>
  C8 as stated fails: not every call with \<open>k \<le> n\<close> has a result.  For \<open>n = 1\<close> the loop
  \<^verbatim>\<open>for(i=0; i<n; i+=2)\<close> accesses \<^verbatim>\<open>codeword[i+1]\<close>, one past the end of a codeword of \<open>n\<close>
  symbols, whatever the tables, the symbol, the mask and the locator array are.
\<close>

theorem decode_main_single_symbol_counterexample:
  "\<forall>t erasure log_walsh2. decode_main t [7] 1 erasure log_walsh2 1 = None"
  by (intro allI) (rule decode_main_single)

text \<open>
  C8, amended.  For tables of the declared sizes, \<open>n = 2 ^ m\<close> with \<open>1 \<le> m \<le> 16\<close>, \<open>k \<le> n\<close>,
  and a codeword, a mask and a locator array of at least \<open>n\<close> entries each, \<^verbatim>\<open>decode_main\<close>
  returns, the codeword keeps its length, and every position \<open>i < k\<close> whose mask entry is
  false holds 0.
\<close>

theorem decode_main_zeroes_known:
  assumes "sized t" and "n = 2 ^ m" and "0 < m" and "m \<le> 16" and "k \<le> n"
    and "n \<le> length codeword" and "n \<le> length erasure" and "n \<le> length log_walsh2"
  shows "\<exists>codeword'. decode_main t codeword k erasure log_walsh2 n = Some codeword'
    \<and> length codeword' = length codeword
    \<and> (\<forall>i<k. erasure ! i = 0 \<longrightarrow> codeword' ! i = 0)"
proof -
  have L: "length (LOG_TABLE t) = FIELD_SIZE" and E: "length (EXP_TABLE t) = FIELD_SIZE"
    and S: "length (skewVec t) = MODULO" and Bl: "length (B t) = 32768"
    using assms(1) by (simp_all add: sized_def)
  have "(2::nat) ^ m \<le> 2 ^ 16" using assms(4) by (rule power_increasing) simp
  then have p: "(2::nat) ^ m \<le> FIELD_SIZE" by simp
  have S': "2 ^ m - 1 \<le> length (skewVec t)" using S p by linarith
  have B': "2 ^ m \<le> 2 * length (B t)" using Bl p by linarith
  have a: "k \<le> 2 ^ m" "2 ^ m \<le> length codeword" "2 ^ m \<le> length erasure"
    "2 ^ m \<le> length log_walsh2" using assms(2,5,6,7,8) by simp_all
  from decode_main_total [OF L E S' B' assms(3) a(2,3,4,1)] obtain c6 c7
    where r: "decode_main t codeword k erasure log_walsh2 (2 ^ m) = Some c7"
      and z: "for_range 0 k (recover t erasure log_walsh2) c6 = Some c7"
      and l: "length c7 = length codeword"
    by blast
  have "\<forall>i<k. erasure ! i = 0 \<longrightarrow> c7 ! i = 0"
    using recover_loop_zero [OF z] by blast
  then show ?thesis using r l assms(2) by simp
qed

theorem decode_main_zeroes_known_witness:
  "\<exists>codeword'. decode_main (zero_tables\<lparr>EXP_TABLE := replicate FIELD_SIZE 1\<rparr>)
        [7, 9] 1 [0, 0] [0, 0] 2 = Some codeword'
     \<and> length codeword' = length [7, 9 :: GFSymbol]
     \<and> (\<forall>i<1. [0, 0 :: Boolean] ! i = 0 \<longrightarrow> codeword' ! i = 0)
     \<and> codeword' = [0, 1]"
  using decode_main_zeroes_known [of "zero_tables\<lparr>EXP_TABLE := replicate FIELD_SIZE 1\<rparr>"
      2 1 1 "[7, 9]" "[0, 0]" "[0, 0]"] decode_main_run
  by (simp add: sized_def zero_tables_def)

section \<open>The scenario \<open>k = 4\<close>, \<open>n = 8\<close>\<close>






section \<open>A second \<^verbatim>\<open>setup\<close> changes the skew vector\<close>

lemma init_base_total: "\<exists>base. init_base = Some base \<and> length base = 15"
  unfolding init_base_def
  by (rule for_range_total [where I = "\<lambda>i s. length s = 15"]) auto

text \<open>The indices the level loops write are never one below a multiple of \<open>2 ^ (m + 1)\<close>.\<close>

lemma skew_index_odd:
  assumes "m \<le> i"
  shows "\<not> 2 ^ (m + 1) dvd (2 ^ m - 1 + k * 2 ^ (m + 1) + 2 ^ (i + 1) + (1::nat))"
proof
  assume d: "2 ^ (m + 1) dvd (2 ^ m - 1 + k * 2 ^ (m + 1) + 2 ^ (i + 1) + (1::nat))"
  have e: "2 ^ m - 1 + k * 2 ^ (m + 1) + 2 ^ (i + 1) + (1::nat)
      = 2 ^ m + (k * 2 ^ (m + 1) + 2 ^ (i + 1))" by simp
  have "(2::nat) ^ (m + 1) dvd 2 ^ (i + 1)" using assms by (intro le_imp_power_dvd) simp
  then have "(2::nat) ^ (m + 1) dvd k * 2 ^ (m + 1) + 2 ^ (i + 1)" by simp
  then have "(2::nat) ^ (m + 1) dvd 2 ^ m" using d unfolding e by (simp only: dvd_add_left_iff)
  then have "(2::nat) ^ (m + 1) \<le> 2 ^ m" by (rule dvd_imp_le) simp
  then show False by simp
qed

lemma skew_inner_total:
  assumes "m \<le> i" and "i < 15" and "length (s :: GFSymbol list) = MODULO"
    and "length (base :: GFSymbol list) = 15"
  shows "\<exists>s'. for_step (2 ^ m - 1) (2 ^ (i + 1)) (2 ^ (m + 1)) (\<lambda>j skew. do {
         v \<leftarrow> rd skew j;
         b \<leftarrow> rd base i;
         wr skew (j + 2 ^ (i + 1)) (v XOR b)
       }) s = Some s' \<and> length s' = MODULO \<and> s' ! 32767 = s ! 32767"
proof -
  let ?lo = "2 ^ m - 1 :: nat" and ?st = "2 ^ (m + 1) :: nat" and ?hi = "2 ^ (i + 1) :: nat"
  let ?K = "2 ^ (i - m) :: nat"
  let ?body = "\<lambda>j skew. do {
         v \<leftarrow> rd skew j;
         b \<leftarrow> rd base i;
         wr skew (j + ?hi) (v XOR b)
       }"
  have "i - m + (m + 1) = i + 1" using assms(1) by simp
  then have K: "?K * ?st = ?hi" by (simp only: power_add [symmetric])
  have lo: "?lo < ?st" by (simp add: less_imp_diff_less)
  have "(2::nat) ^ (i + 1) \<le> 2 ^ 15" using assms(2) by (intro power_increasing) simp_all
  then have hi: "?hi \<le> 32768" by simp
  have d15: "?st dvd 32768" "?st dvd 65536"
  proof -
    have "(2::nat) ^ (m + 1) dvd 2 ^ 15" "(2::nat) ^ (m + 1) dvd 2 ^ 16"
      using assms(1,2) by (intro le_imp_power_dvd, simp)+
    then show "?st dvd 32768" "?st dvd 65536" by simp_all
  qed
  have "for_step ?lo ?hi ?st ?body s = for_range 0 ?K (\<lambda>k. ?body (?lo + k * ?st)) s"
  proof (rule for_step_as_range)
    show "0 < ?st" by simp
    show "?hi \<le> ?lo + ?K * ?st" unfolding K by (rule le_add2)
    have "0 < ?K" by simp
    then have "(?K - 1) * ?st + ?st = ?K * ?st"
      by (metis Suc_diff_1 add.commute mult_Suc)
    then have "?lo + (?K - 1) * ?st < ?hi" using lo K by linarith
    then show "?K = 0 \<or> ?lo + (?K - 1) * ?st < ?hi" by simp
  qed
  moreover have "\<exists>s'. for_range 0 ?K (\<lambda>k. ?body (?lo + k * ?st)) s = Some s'
      \<and> length s' = MODULO \<and> s' ! 32767 = s ! 32767"
  proof (rule for_range_total [where I = "\<lambda>k s'. length s' = MODULO \<and> s' ! 32767 = s ! 32767"])
    show "length s = MODULO \<and> s ! 32767 = s ! 32767" using assms(3) by simp
    show "0 \<le> ?K" by simp
  next
    fix k and s1 :: "GFSymbol list"
    assume k: "k < ?K" and I: "length s1 = MODULO \<and> s1 ! 32767 = s ! 32767"
    let ?j = "?lo + k * ?st"
    have "Suc k * ?st \<le> ?K * ?st" using k by (intro mult_le_mono1) simp
    then have "k * ?st + ?st \<le> ?hi" using K by simp
    then have j: "?j < ?hi" using lo by linarith
    have nd: "\<not> ?st dvd (?j + ?hi + 1)" by (rule skew_index_odd [OF assms(1)])
    have ne: "?j + ?hi \<noteq> 32767" "?j + ?hi \<noteq> 65535"
    proof -
      show "?j + ?hi \<noteq> 32767"
      proof
        assume "?j + ?hi = 32767"
        then have "?j + ?hi + 1 = 32768" by simp
        then show False using nd d15(1) by simp
      qed
      show "?j + ?hi \<noteq> 65535"
      proof
        assume "?j + ?hi = 65535"
        then have "?j + ?hi + 1 = 65536" by simp
        then show False using nd d15(2) by simp
      qed
    qed
    have lt: "?j + ?hi < MODULO" using j hi ne(2) by linarith
    have jl: "?j < length s1" using j hi I by linarith
    have "?body ?j s1 = Some (s1[?j + ?hi := s1 ! ?j XOR base ! i])"
      using jl lt I assms(2,4) by simp
    moreover have "s1[?j + ?hi := s1 ! ?j XOR base ! i] ! 32767 = s1 ! 32767"
      by (rule nth_list_update_neq [OF ne(1)])
    ultimately show "\<exists>s'. ?body ?j s1 = Some s'
        \<and> (length s' = MODULO \<and> s' ! 32767 = s ! 32767)" using I by simp
  qed
  ultimately show ?thesis by simp
qed

lemma skew_level_total:
  assumes L: "length (LOG_TABLE t) = FIELD_SIZE" and E: "length (EXP_TABLE t) = FIELD_SIZE"
    and m: "m < 15" and ls: "length skew = MODULO" and lb: "length base = 15"
  shows "\<exists>skew' base'. skew_level t m (skew, base) = Some (skew', base')
    \<and> length skew' = MODULO \<and> length base' = 15 \<and> skew' ! 32767 = skew ! 32767"
proof -
  have "(2::nat) ^ m \<le> 2 ^ 14" using m by (intro power_increasing) simp_all
  then have p: "(2::nat) ^ m \<le> 16384" by simp
  let ?s1 = "skew[2 ^ m - 1 := 0]"
  have w: "wr skew (2 ^ m - 1) 0 = Some ?s1" using p ls by simp
  have l1: "length ?s1 = MODULO" using ls by simp
  have "2 ^ m - 1 \<noteq> (32767::nat)" using p by linarith
  then have v1: "?s1 ! 32767 = skew ! 32767" by (rule nth_list_update_neq)
  let ?inner = "\<lambda>i skew. for_step (2 ^ m - 1) (2 ^ (i + 1)) (2 ^ (m + 1)) (\<lambda>j skew. do {
         v \<leftarrow> rd skew j;
         b \<leftarrow> rd base i;
         wr skew (j + 2 ^ (i + 1)) (v XOR b)
       }) skew"
  have "\<exists>s2. for_range m (FIELD_BITS - 1) ?inner ?s1 = Some s2
      \<and> length s2 = MODULO \<and> s2 ! 32767 = skew ! 32767"
  proof (rule for_range_total [where I = "\<lambda>i s. length s = MODULO \<and> s ! 32767 = skew ! 32767"])
    show "length ?s1 = MODULO \<and> ?s1 ! 32767 = skew ! 32767" using l1 v1 by simp
    show "m \<le> FIELD_BITS - 1" using m by simp
  next
    fix i and s :: "GFSymbol list"
    assume i: "m \<le> i" "i < FIELD_BITS - 1" and I: "length s = MODULO \<and> s ! 32767 = skew ! 32767"
    have i15: "i < 15" using i(2) by simp
    from skew_inner_total [OF i(1) i15 _ lb, of s] I
    show "\<exists>s'. ?inner i s = Some s' \<and> (length s' = MODULO \<and> s' ! 32767 = skew ! 32767)"
      by auto
  qed
  then obtain s2 where loop: "for_range m (FIELD_BITS - 1) ?inner ?s1 = Some s2"
    and l2: "length s2 = MODULO" and v2: "s2 ! 32767 = skew ! 32767" by blast
  define bm where "bm = base ! m"
  define l1v where "l1v = LOG_TABLE t ! unat (bm XOR 1)"
  define pv where "pv = mulE_val t bm l1v"
  define l2v where "l2v = LOG_TABLE t ! unat pv"
  let ?b1 = "base[m := of_nat (MODULO - unat l2v)]"
  have r1: "rd base m = Some bm" using m lb by (simp add: bm_def)
  have r2: "rd (LOG_TABLE t) (unat (bm XOR 1)) = Some l1v" using L by (simp add: l1v_def)
  have r3: "mulE t bm l1v = Some pv" unfolding pv_def by (rule mulE_total [OF L E])
  have r4: "rd (LOG_TABLE t) (unat pv) = Some l2v" using L by (simp add: l2v_def)
  have r5: "wr base m (of_nat (MODULO - unat l2v)) = Some ?b1" using m lb by simp
  let ?bl = "\<lambda>i base. do {
       bi \<leftarrow> rd base i;
       l \<leftarrow> rd (LOG_TABLE t) (unat (bi XOR 1));
       bm \<leftarrow> rd base m;
       p \<leftarrow> mulE t bi (of_nat ((unat l + unat bm) mod MODULO));
       wr base i p
     }"
  have "\<exists>b2. for_range (m + 1) (FIELD_BITS - 1) ?bl ?b1 = Some b2 \<and> length b2 = 15"
  proof (rule for_range_total [where I = "\<lambda>i s. length s = 15"])
    show "length ?b1 = 15" using lb by simp
    show "m + 1 \<le> FIELD_BITS - 1" using m by simp
  next
    fix i and s :: "GFSymbol list"
    assume i: "m + 1 \<le> i" "i < FIELD_BITS - 1" and I: "length s = 15"
    show "\<exists>s'. ?bl i s = Some s' \<and> length s' = 15"
      using i I m L by (simp add: mulE_total [OF L E])
  qed
  then obtain b2 where r6: "for_range (m + 1) (FIELD_BITS - 1) ?bl ?b1 = Some b2"
    and lb2: "length b2 = 15" by blast
  have "skew_level t m (skew, base) = Some (s2, b2)"
    unfolding skew_level_def Let_def prod.case
    by (simp only: w loop r1 r2 r3 r4 r5 r6 bind.bind_lunit)
  then show ?thesis using l2 lb2 v2 by simp
qed

lemma skew_levels_total:
  assumes L: "length (LOG_TABLE t) = FIELD_SIZE" and E: "length (EXP_TABLE t) = FIELD_SIZE"
    and ls: "length skew = MODULO" and lb: "length base = 15"
  shows "\<exists>skew' base'. for_range 0 (FIELD_BITS - 1) (skew_level t) (skew, base) = Some (skew', base')
    \<and> length skew' = MODULO \<and> skew' ! 32767 = skew ! 32767"
proof -
  let ?I = "\<lambda>(i::nat) r. length (fst r) = MODULO \<and> length (snd r) = 15
      \<and> fst r ! 32767 = skew ! 32767"
  have "\<exists>r. for_range 0 (FIELD_BITS - 1) (skew_level t) (skew, base) = Some r \<and> ?I (FIELD_BITS - 1) r"
  proof (rule for_range_total [where I = ?I])
    show "?I 0 (skew, base)" using ls lb by simp
    show "0 \<le> FIELD_BITS - 1" by simp
  next
    fix j and r :: "GFSymbol list \<times> GFSymbol list"
    assume j: "0 \<le> j" "j < FIELD_BITS - 1" and I: "?I j r"
    have j15: "j < 15" using j(2) by simp
    from skew_level_total [OF L E j15, of "fst r" "snd r"] I
    obtain s' b' where "skew_level t j (fst r, snd r) = Some (s', b')"
      "length s' = MODULO" "length b' = 15" "s' ! 32767 = fst r ! 32767" by auto
    then show "\<exists>r'. skew_level t j r = Some r' \<and> ?I (Suc j) r'" using I by simp
  qed
  then show ?thesis by auto
qed

lemma log_pass:
  assumes "length (LOG_TABLE t) = FIELD_SIZE" and "n \<le> length skew"
  shows "for_range 0 n (log_entry t) skew
    = Some (map (\<lambda>v. LOG_TABLE t ! unat v) (take n skew) @ drop n skew)"
  using assms(2)
proof (induction n)
  case 0
  show ?case by (simp add: for_range_stop)
next
  case (Suc n)
  let ?f = "\<lambda>v. LOG_TABLE t ! unat v"
  let ?A = "map ?f (take n skew)"
  have lA: "length ?A = n" using Suc.prems by simp
  have n: "n < length (?A @ drop n skew)" using Suc.prems by simp
  have "for_range 0 (Suc n) (log_entry t) skew
      = Option.bind (for_range 0 n (log_entry t) skew) (log_entry t n)"
    by (rule for_range_snoc) simp
  also have "\<dots> = log_entry t n (?A @ drop n skew)" using Suc by simp
  also have "\<dots> = Some ((?A @ drop n skew)[n := ?f ((?A @ drop n skew) ! n)])"
    by (rule log_entry_in [OF n assms(1)])
  also have "(?A @ drop n skew) ! n = skew ! n" using lA Suc.prems by (simp add: nth_append)
  also have "(?A @ drop n skew)[n := ?f (skew ! n)] = ?A @ (drop n skew)[0 := ?f (skew ! n)]"
    using lA by (simp add: list_update_append)
  also have "drop n skew = skew ! n # drop (Suc n) skew"
    using Suc.prems by (simp add: Cons_nth_drop_Suc)
  also have "?A @ (skew ! n # drop (Suc n) skew)[0 := ?f (skew ! n)]
      = map ?f (take (Suc n) skew) @ drop (Suc n) skew"
    using Suc.prems by (simp add: take_Suc_conv_app_nth)
  finally show ?case .
qed

text \<open>The final pass of \<^verbatim>\<open>init_dec\<close> is the \<open>MODULO\<close> iterations that \<open>skew_pass\<close> ends with,
  followed by the iteration \<open>i = MODULO\<close>.\<close>

lemma skew_to_log_split:
  "skew_to_log t skew = Option.bind (for_range 0 MODULO (log_entry t) skew) (log_entry t MODULO)"
proof -
  have S: "FIELD_SIZE = Suc MODULO" by simp
  show ?thesis unfolding skew_to_log_def by (subst S, rule for_range_snoc) simp
qed

lemma skew_pass_spec:
  assumes L: "length (LOG_TABLE t) = FIELD_SIZE" and E: "length (EXP_TABLE t) = FIELD_SIZE"
    and ls: "length (skewVec t) = MODULO"
  shows "\<exists>s. skew_pass t = Some s \<and> length s = MODULO
    \<and> s ! 32767 = LOG_TABLE t ! unat (skewVec t ! 32767)"
proof -
  from init_base_total obtain base where b: "init_base = Some base" and lb: "length base = 15"
    by blast
  from skew_levels_total [OF L E ls lb] obtain sk b'
    where lv: "for_range 0 (FIELD_BITS - 1) (skew_level t) (skewVec t, base) = Some (sk, b')"
      and lk: "length sk = MODULO" and v: "sk ! 32767 = skewVec t ! 32767" by blast
  let ?s = "map (\<lambda>v. LOG_TABLE t ! unat v) (take MODULO sk) @ drop MODULO sk"
  have p: "for_range 0 MODULO (log_entry t) sk = Some ?s"
    by (rule log_pass [OF L]) (use lk in simp)
  have "skew_levels t = Some (sk, b')"
    unfolding skew_levels_def by (simp only: b lv bind.bind_lunit)
  then have "skew_pass t = Some ?s"
    unfolding skew_pass_def by (simp only: p bind.bind_lunit prod.case)
  moreover have "length ?s = MODULO" using lk by simp
  moreover have "?s ! 32767 = LOG_TABLE t ! unat (skewVec t ! 32767)" using lk v by simp
  ultimately show ?thesis by blast
qed

text \<open>
  C9 (fails on the code).  The level loops of \<^verbatim>\<open>init_dec\<close> write \<^verbatim>\<open>skewVec[(1<<m)-1]\<close> for
  \<open>m \<le> 14\<close> and \<^verbatim>\<open>skewVec[j+s]\<close>, never the entry \<open>32767 = 2\<^sup>1\<^sup>5 - 1\<close>, and the final pass
  replaces every entry by its logarithm.  So entry \<open>32767\<close> is mapped through \<open>LOG_TABLE\<close>
  once more by every call.  From the zeroed globals the first call brings the skew vector,
  by the time its final pass has gone through the array, to a state \<open>s1\<close> with
  \<open>s1[32767] = LOG_TABLE[0] = 65535\<close>; a second call, from any state of the declared sizes
  whose skew vector is \<open>s1\<close>, brings it to a state \<open>s2\<close> with \<open>s2[32767] = LOG_TABLE[65535]\<close>,
  which differs from \<open>65535\<close>: the second call does not reproduce the skew vector.
\<close>

theorem setup_skewVec_not_idempotent:
  "\<exists>t1 s1. init zero_tables = Some t1 \<and> skew_pass t1 = Some s1 \<and> length s1 = MODULO
     \<and> s1 ! 32767 = 65535
     \<and> (\<forall>t. sized t \<and> skewVec t = s1 \<longrightarrow>
          (\<exists>t2 s2. init t = Some t2 \<and> skew_pass t2 = Some s2 \<and> length s2 = MODULO
             \<and> s2 ! 32767 = LOG_TABLE t2 ! 65535 \<and> s2 ! 32767 \<noteq> s1 ! 32767))"
proof -
  have z: "length (LOG_TABLE zero_tables) = FIELD_SIZE" "length (EXP_TABLE zero_tables) = FIELD_SIZE"
    by (simp_all add: zero_tables_def)
  from init_spec [OF z] obtain t1 where i1: "init zero_tables = Some t1"
    and L1: "length (LOG_TABLE t1) = FIELD_SIZE" and E1: "length (EXP_TABLE t1) = FIELD_SIZE"
    and k1: "skewVec t1 = skewVec zero_tables"
    and l0: "LOG_TABLE t1 ! 0 = of_nat MODULO" by blast
  have ls1: "length (skewVec t1) = MODULO" and v0: "skewVec t1 ! 32767 = 0"
    using k1 by (simp_all add: zero_tables_def)
  from skew_pass_spec [OF L1 E1 ls1] obtain s1 where p1: "skew_pass t1 = Some s1"
    and len1: "length s1 = MODULO"
    and e1: "s1 ! 32767 = LOG_TABLE t1 ! unat (skewVec t1 ! 32767)" by blast
  have a1: "s1 ! 32767 = 65535" using e1 v0 l0 by simp
  have "\<exists>t2 s2. init t = Some t2 \<and> skew_pass t2 = Some s2 \<and> length s2 = MODULO
      \<and> s2 ! 32767 = LOG_TABLE t2 ! 65535 \<and> s2 ! 32767 \<noteq> s1 ! 32767"
    if t: "sized t \<and> skewVec t = s1" for t
  proof -
    have zt: "length (LOG_TABLE t) = FIELD_SIZE" "length (EXP_TABLE t) = FIELD_SIZE"
      using t by (simp_all add: sized_def)
    from init_spec [OF zt] obtain t2 where i2: "init t = Some t2"
      and L2: "length (LOG_TABLE t2) = FIELD_SIZE" and E2: "length (EXP_TABLE t2) = FIELD_SIZE"
      and k2: "skewVec t2 = skewVec t"
      and m0: "LOG_TABLE t2 ! 0 = of_nat MODULO"
      and inj: "\<forall>x<FIELD_SIZE. \<forall>y<FIELD_SIZE. LOG_TABLE t2 ! x = LOG_TABLE t2 ! y \<longrightarrow> x = y"
      by blast
    have ls2: "length (skewVec t2) = MODULO" using k2 t len1 by simp
    from skew_pass_spec [OF L2 E2 ls2] obtain s2 where p2: "skew_pass t2 = Some s2"
      and len2: "length s2 = MODULO"
      and e2: "s2 ! 32767 = LOG_TABLE t2 ! unat (skewVec t2 ! 32767)" by blast
    have a2: "s2 ! 32767 = LOG_TABLE t2 ! 65535" using e2 k2 t a1 by simp
    have "LOG_TABLE t2 ! 65535 \<noteq> LOG_TABLE t2 ! 0"
    proof
      assume "LOG_TABLE t2 ! 65535 = LOG_TABLE t2 ! 0"
      then have "(65535::nat) = 0" by (rule inj [rule_format, rotated 2]) simp_all
      then show False by simp
    qed
    then have "s2 ! 32767 \<noteq> s1 ! 32767" using a2 a1 m0 by simp
    then show ?thesis using i2 p2 len2 a2 by blast
  qed
  then show ?thesis using i1 p1 len1 a1 by blast
qed

theorem setup_skewVec_not_idempotent_witness:
  "\<exists>t1 s1 t2 s2. init zero_tables = Some t1 \<and> skew_pass t1 = Some s1
     \<and> init (t1\<lparr>skewVec := s1\<rparr>) = Some t2 \<and> skew_pass t2 = Some s2
     \<and> s1 ! 32767 = 65535 \<and> s2 ! 32767 \<noteq> 65535"
proof -
  from setup_skewVec_not_idempotent obtain t1 s1 where i1: "init zero_tables = Some t1"
    and p1: "skew_pass t1 = Some s1" and len1: "length s1 = MODULO" and a1: "s1 ! 32767 = 65535"
    and nxt: "\<forall>t. sized t \<and> skewVec t = s1 \<longrightarrow>
          (\<exists>t2 s2. init t = Some t2 \<and> skew_pass t2 = Some s2 \<and> length s2 = MODULO
             \<and> s2 ! 32767 = LOG_TABLE t2 ! 65535 \<and> s2 ! 32767 \<noteq> s1 ! 32767)"
    by blast
  have z: "length (LOG_TABLE zero_tables) = FIELD_SIZE" "length (EXP_TABLE zero_tables) = FIELD_SIZE"
    by (simp_all add: zero_tables_def)
  from init_spec [OF z] i1 have "length (LOG_TABLE t1) = FIELD_SIZE"
    "length (EXP_TABLE t1) = FIELD_SIZE" "B t1 = B zero_tables" "log_walsh t1 = log_walsh zero_tables"
    by auto
  then have "sized (t1\<lparr>skewVec := s1\<rparr>) \<and> skewVec (t1\<lparr>skewVec := s1\<rparr>) = s1"
    using len1 by (simp add: sized_def zero_tables_def)
  with nxt obtain t2 s2 where "init (t1\<lparr>skewVec := s1\<rparr>) = Some t2" "skew_pass t2 = Some s2"
    "s2 ! 32767 \<noteq> s1 ! 32767" by blast
  then show ?thesis using i1 p1 a1 by auto
qed
end
